theory Spec2Isabelle
  imports Complex_Main "HOL-Library.AList"
begin

section \<open>CharMorph fitting weights (lib/fit\_calc.py)\<close>

text \<open>
  A shallow embedding of the weight calculation of \<^verbatim>\<open>src/lib/fit_calc.py\<close>.

  Conventions of the embedding:
  \<^item> Python and numpy floats are modelled as \<open>real\<close>: the theorems are about exact
    arithmetic, rounding is outside the model. Where Python raises on a division
    (\<^verbatim>\<open>ZeroDivisionError\<close>) the model returns an error; where numpy divides by zero
    without raising (in \<^verbatim>\<open>weights_normalize\<close>) the model returns \<open>None\<close> for the
    non-finite element.
  \<^item> Vertex ids, row offsets and array lengths are \<open>nat\<close>. The source stores ids and
    offsets in \<^verbatim>\<open>uint32\<close> arrays. The conversion of the ids to that type is written
    out (\<open>u32_cast\<close>: an id of \<open>2^32\<close> or more wraps), and so is the subtraction in that
    type (\<^verbatim>\<open>cnt[:-1] -= positions[:-1]\<close>). A row offset is the number of entries stored
    before the row; it is the value the array holds as long as fewer than \<open>2^32\<close> entries
    are stored.
  \<^item> A per-row weight dictionary is an association list in insertion order, updated
    by \<open>AList.update\<close> (an existing key keeps its place, a new key goes to the end),
    which is the iteration order of a Python \<^verbatim>\<open>dict\<close>.
  \<^item> Every \<^verbatim>\<open>raise\<close> is a value \<open>Inl e\<close> of the result type \<open>error + 'a\<close>. A pass that
    mutates the weight rows in place returns the updated rows.
  \<^item> The surface index and the barycentric weights of the \<^verbatim>\<open>mathutils\<close> library are
    parameters, collected in the record \<open>mathutils\<close>. The nearest-vertex index, built
    by helpers of the module \<^verbatim>\<open>utils\<close>, is modelled by what it has to return: the
    nearest points in order of distance.
  \<^item> The lazily computed properties of a Geometry are functions of its fields: the
    source never changes the fields of a Geometry whose index has been built
    (\<^verbatim>\<open>geom_morph\<close> copies first).
\<close>

subsection \<open>Values, errors, dictionaries\<close>

type_synonym vec = "real \<times> real \<times> real"

datatype error = ValueError | IndexError | ZeroDivisionError | AttributeError

type_synonym row = "(nat \<times> real) list"

text \<open>\<^verbatim>\<open>d.get(k, default)\<close>\<close>

definition dict_get :: "row \<Rightarrow> nat \<Rightarrow> real \<Rightarrow> real" where
  "dict_get d k dflt = (case map_of d k of None \<Rightarrow> dflt | Some v \<Rightarrow> v)"

text \<open>\<^verbatim>\<open>d[k] = v\<close>\<close>

definition dict_set :: "row \<Rightarrow> nat \<Rightarrow> real \<Rightarrow> row" where
  "dict_set d k v = AList.update k v d"

text \<open>Python's \<^verbatim>\<open>max(iterable)\<close>: \<^verbatim>\<open>ValueError\<close> on an empty sequence.\<close>

definition py_max :: "real list \<Rightarrow> error + real" where
  "py_max xs = (case xs of [] \<Rightarrow> Inl ValueError | x # rest \<Rightarrow> Inr (fold max rest x))"

definition dist_thresh :: real where
  "dist_thresh = 1 / 10"

definition epsilon :: real where
  "epsilon = 1 / 10 ^ 30"

definition repsilon :: real where
  "repsilon = 1 / 10 ^ 5"

subsection \<open>numpy primitives\<close>

text \<open>
  \<^verbatim>\<open>numpy.add.reduceat(a, positions)\<close>: entry \<open>i\<close> is the sum of
  \<^verbatim>\<open>a[positions[i]:positions[i+1]]\<close> when \<open>positions[i] < positions[i+1]\<close>, the single
  element \<^verbatim>\<open>a[positions[i]]\<close> otherwise; the last entry is the sum of
  \<^verbatim>\<open>a[positions[-1]:]\<close>. An offset outside the array raises \<^verbatim>\<open>IndexError\<close>.
\<close>

definition reduceat :: "'a::monoid_add list \<Rightarrow> nat list \<Rightarrow> error + 'a list" where
  "reduceat a positions =
     (if \<exists>p \<in> set positions. length a \<le> p then Inl IndexError
      else Inr (map (\<lambda>(p, q). if p < q then sum_list (take (q - p) (drop p a)) else a ! p)
                  (zip positions (tl positions @ [length a]))))"

text \<open>\<^verbatim>\<open>a.repeat(cnt)\<close>: element \<open>i\<close> repeated \<open>cnt[i]\<close> times.\<close>

definition repeat :: "'a list \<Rightarrow> nat list \<Rightarrow> 'a list" where
  "repeat a cnt = concat (map (\<lambda>(x, c). replicate c x) (zip a cnt))"

text \<open>numpy's float division: no exception, a non-finite result (\<open>None\<close>) on a zero divisor.\<close>

definition np_div :: "real \<Rightarrow> real \<Rightarrow> real option" where
  "np_div x s = (if s = 0 then None else Some (x / s))"

subsection \<open>Applying and assembling weights\<close>

text \<open>
  \<^verbatim>\<open>calc_fit(arr, weights)\<close> is
  \<^verbatim>\<open>numpy.add.reduceat(arr[weights[1]] * weights[2], weights[0])\<close>.
  An element of \<open>arr\<close> is a scalar or a vector (a row of a 2D array), hence the type class.
  The gather \<^verbatim>\<open>arr[idx]\<close> raises \<^verbatim>\<open>IndexError\<close> on an id outside \<open>arr\<close>; the product
  broadcasts an operand of length one and raises \<^verbatim>\<open>ValueError\<close> on other length mismatches.
\<close>

definition gather :: "'a list \<Rightarrow> nat list \<Rightarrow> error + 'a list" where
  "gather arr idx =
     (if \<exists>k \<in> set idx. length arr \<le> k then Inl IndexError else Inr (map (\<lambda>k. arr ! k) idx))"

definition np_mul :: "'a::real_vector list \<Rightarrow> real list \<Rightarrow> error + 'a list" where
  "np_mul xs ws =
     (if length xs = length ws then Inr (map (\<lambda>(x, w). w *\<^sub>R x) (zip xs ws))
      else if length xs = 1 then Inr (map (\<lambda>w. w *\<^sub>R hd xs) ws)
      else if length ws = 1 then Inr (map (\<lambda>x. hd ws *\<^sub>R x) xs)
      else Inl ValueError)"

definition calc_fit :: "'a::real_vector list \<Rightarrow> nat list \<times> nat list \<times> real list \<Rightarrow> error + 'a list" where
  "calc_fit arr weights =
     (case weights of (positions, idx, wresult) \<Rightarrow>
        (case gather arr idx of Inl e \<Rightarrow> Inl e
         | Inr g \<Rightarrow> (case np_mul g wresult of Inl e \<Rightarrow> Inl e
                    | Inr scaled \<Rightarrow> reduceat scaled positions)))"

text \<open>
  \<^verbatim>\<open>weights_convert(weights, cut=True)\<close>. The threshold variable lives across the rows:
  it starts at 0 and is reassigned per row only when \<^verbatim>\<open>cut\<close> (here \<open>prune\<close>) holds, so without it
  the test \<^verbatim>\<open>v >= thresh\<close> still runs, against 0.
\<close>

fun convert_loop ::
  "bool \<Rightarrow> row list \<Rightarrow> real \<Rightarrow> nat list \<Rightarrow> nat list \<Rightarrow> real list
     \<Rightarrow> error + (nat list \<times> nat list \<times> real list)" where
  "convert_loop prune [] thresh positions idx wresult = Inr (positions, idx, wresult)"
| "convert_loop prune (d # ds) thresh positions idx wresult =
     (case (if prune then (case py_max (map snd d) of Inl e \<Rightarrow> Inl e | Inr m \<Rightarrow> Inr (m / 32))
            else Inr thresh) of
        Inl e \<Rightarrow> Inl e
      | Inr thresh' \<Rightarrow>
          convert_loop prune ds thresh' (positions @ [length idx])
            (idx @ map fst (filter (\<lambda>(k, v). thresh' \<le> v) d))
            (wresult @ map snd (filter (\<lambda>(k, v). thresh' \<le> v) d)))"

text \<open>
  After the loop the list of ids becomes an array,
  \<^verbatim>\<open>numpy.array(idx, dtype=numpy.uint32)\<close>: an id of \<open>2^32\<close> or more does not fit and wraps
  (numpy 2 and later raise \<^verbatim>\<open>OverflowError\<close> instead; below \<open>2^32\<close> all versions agree).
\<close>

definition u32_cast :: "nat \<Rightarrow> nat" where
  "u32_cast k = k mod 2 ^ 32"

definition weights_convert :: "row list \<Rightarrow> bool \<Rightarrow> error + (nat list \<times> nat list \<times> real list)" where
  "weights_convert weights prune =
     (case convert_loop prune weights 0 [] [] [] of
        Inl e \<Rightarrow> Inl e
      | Inr (positions, idx, wresult) \<Rightarrow> Inr (positions, map u32_cast idx, wresult))"

text \<open>
  \<^verbatim>\<open>weights_normalize(positions, wresult)\<close> divides \<open>wresult\<close> in place; the model returns
  the new array. \<^verbatim>\<open>cnt[-1]\<close> and \<^verbatim>\<open>positions[-1]\<close> raise \<^verbatim>\<open>IndexError\<close> on an empty
  offset array. A last offset beyond the array is an error as well (the negative count
  does not fit the unsigned array, and \<^verbatim>\<open>reduceat\<close> rejects the offset). The differences of neighbouring offsets are taken in \<^verbatim>\<open>uint32\<close>
  (\<open>u32_sub\<close>, on two elements of such an array: a negative difference wraps).
  The in-place division raises \<^verbatim>\<open>ValueError\<close> when the divisor has neither the length
  of \<open>wresult\<close> nor length one.
\<close>

definition u32_sub :: "nat \<Rightarrow> nat \<Rightarrow> nat" where
  "u32_sub q p = (if p \<le> q then q - p else 2 ^ 32 - (p - q))"

definition weights_normalize :: "nat list \<Rightarrow> real list \<Rightarrow> error + real option list" where
  "weights_normalize positions wresult =
     (if positions = [] then Inl IndexError
      else if length wresult < last positions then Inl IndexError
      else
        let cnt = map (\<lambda>(p, q). u32_sub q p) (zip (butlast positions) (tl positions))
                    @ [length wresult - last positions]
        in (case reduceat wresult positions of Inl e \<Rightarrow> Inl e
            | Inr row_sums \<Rightarrow>
                (let divisor = repeat row_sums cnt
                 in if length divisor = length wresult
                    then Inr (map (\<lambda>(x, s). np_div x s) (zip wresult divisor))
                    else if length divisor = 1
                    then Inr (map (\<lambda>x. np_div x (hd divisor)) wresult)
                    else Inl ValueError)))"

subsection \<open>Geometry\<close>

text \<open>
  \<^verbatim>\<open>class Geometry\<close> and its subclass \<^verbatim>\<open>SubsetGeometry\<close>: \<open>subset = None\<close> is a plain
  \<^verbatim>\<open>Geometry\<close>. The constructor stores its arguments and does nothing else; its result
  type has room for an error so that "construction fails" can be stated.
\<close>

record geometry =
  verts :: "vec list"
  faces :: "nat list list"
  subset :: "nat list option"

definition Geometry_init :: "vec list \<Rightarrow> nat list list \<Rightarrow> error + geometry" where
  "Geometry_init vs fs = Inr \<lparr>verts = vs, faces = fs, subset = None\<rparr>"

definition SubsetGeometry_init :: "vec list \<Rightarrow> nat list list \<Rightarrow> nat list \<Rightarrow> error + geometry" where
  "SubsetGeometry_init vs fs sub = Inr \<lparr>verts = vs, faces = fs, subset = Some sub\<rparr>"

definition verts_cnt :: "geometry \<Rightarrow> nat" where
  "verts_cnt g = (case subset g of None \<Rightarrow> length (verts g) | Some sub \<Rightarrow> length sub)"

text \<open>
  \<^verbatim>\<open>verts_enum\<close>: \<^verbatim>\<open>enumerate(self.verts)\<close>, or for a subset the generator
  \<^verbatim>\<open>((i, self.verts[i]) for i in self.subset)\<close>, which raises \<^verbatim>\<open>IndexError\<close> when it
  reaches an id outside \<open>verts\<close>.
\<close>

definition verts_enum :: "geometry \<Rightarrow> error + (nat \<times> vec) list" where
  "verts_enum g =
     (case subset g of
        None \<Rightarrow> Inr (enumerate 0 (verts g))
      | Some sub \<Rightarrow>
          if \<exists>i \<in> set sub. length (verts g) \<le> i then Inl IndexError
          else Inr (map (\<lambda>i. (i, verts g ! i)) sub))"

subsection \<open>Spatial indices\<close>

definition vdist :: "vec \<Rightarrow> vec \<Rightarrow> real" where
  "vdist a b =
     (case a of (ax, ay, az) \<Rightarrow> case b of (bx, by, bz) \<Rightarrow>
        sqrt ((ax - bx)\<^sup>2 + (ay - by)\<^sup>2 + (az - bz)\<^sup>2))"

type_synonym kdtree = "(vec \<times> nat) list"

text \<open>
  Modelled from the spec: \<^verbatim>\<open>utils.kdtree_from_verts_enum\<close> and \<^verbatim>\<open>utils.kdtree_from_verts\<close>
  (module \<^verbatim>\<open>utils\<close> is not among the sources) build the nearest-vertex index of the
  enumerated vertices: every pair \<open>(i, v)\<close> is inserted as point \<open>v\<close> with id \<open>i\<close>. The
  index is modelled by the list of its points.
\<close>

definition kdtree_from_verts_enum :: "(nat \<times> vec) list \<Rightarrow> nat \<Rightarrow> kdtree" where
  "kdtree_from_verts_enum en cnt = map (\<lambda>(i, v). (v, i)) en"

definition kdtree_from_verts :: "vec list \<Rightarrow> kdtree" where
  "kdtree_from_verts vs = kdtree_from_verts_enum (enumerate 0 vs) (length vs)"

text \<open>
  Modelled from the spec: \<^verbatim>\<open>KDTree.find_n(co, n)\<close> of \<^verbatim>\<open>mathutils\<close> ("find the N nearest
  vertices via the nearest-vertex index") returns the \<open>n\<close> points nearest to \<open>co\<close>, fewer
  when the index holds fewer, as triples (point, id, distance) in order of distance.
  Points at equal distance are taken in order of insertion.
\<close>

definition find_n :: "kdtree \<Rightarrow> vec \<Rightarrow> nat \<Rightarrow> (vec \<times> nat \<times> real) list" where
  "find_n kd co n =
     take n (sort_key (\<lambda>(p, i, d). d) (map (\<lambda>(p, i). (p, i, vdist p co)) kd))"

text \<open>
  The surface index and the barycentric weights come from \<^verbatim>\<open>mathutils\<close> and are
  parameters. \<open>FromPolygons vs fs\<close> is \<^verbatim>\<open>BVHTree.FromPolygons(verts, faces)\<close>, which may
  raise; the tree it returns is modelled by its query \<^verbatim>\<open>find_nearest(co, distance)\<close>,
  giving (location, face index, distance) or nothing when no surface point lies within
  \<open>distance\<close>. \<open>poly_3d_calc\<close> is \<^verbatim>\<open>mathutils.interpolate.poly_3d_calc\<close>.
\<close>

type_synonym bvhtree = "vec \<Rightarrow> real \<Rightarrow> (vec \<times> nat \<times> real) option"

record mathutils =
  FromPolygons :: "vec list \<Rightarrow> nat list list \<Rightarrow> error + bvhtree"
  poly_3d_calc :: "vec list \<Rightarrow> vec \<Rightarrow> real list"

text \<open>The lazy properties \<^verbatim>\<open>Geometry.kd\<close> and \<^verbatim>\<open>Geometry.bvh\<close>.\<close>

definition Geometry_kd :: "geometry \<Rightarrow> error + kdtree" where
  "Geometry_kd g =
     (case verts_enum g of Inl e \<Rightarrow> Inl e
      | Inr en \<Rightarrow> Inr (kdtree_from_verts_enum en (verts_cnt g)))"

definition Geometry_bvh :: "mathutils \<Rightarrow> geometry \<Rightarrow> error + bvhtree" where
  "Geometry_bvh mu g = FromPolygons mu (verts g) (faces g)"

subsection \<open>Weight passes\<close>

text \<open>
  \<^verbatim>\<open>calc_weights_kd(kd, verts, _epsilon, n)\<close>. \<open>kd_dict\<close> is the dictionary comprehension;
  \<^verbatim>\<open>dist / maxdist\<close> and the division by \<^verbatim>\<open>max(dist, _epsilon)\<close> are divisions of Python
  floats, which raise \<^verbatim>\<open>ZeroDivisionError\<close> on a zero divisor.
\<close>

fun kd_dict :: "real \<Rightarrow> real \<Rightarrow> (vec \<times> nat \<times> real) list \<Rightarrow> row \<Rightarrow> error + row" where
  "kd_dict maxdist eps [] d = Inr d"
| "kd_dict maxdist eps ((co, idx, pdist) # ps) d =
     (if maxdist = 0 then Inl ZeroDivisionError
      else if max pdist eps = 0 then Inl ZeroDivisionError
      else kd_dict maxdist eps ps (dict_set d idx ((1 - pdist / maxdist) / max pdist eps)))"

definition kd_row :: "kdtree \<Rightarrow> vec \<Rightarrow> real \<Rightarrow> nat \<Rightarrow> error + row" where
  "kd_row kd v eps n =
     (let pdata = find_n kd v n
      in case py_max (map (\<lambda>(co, idx, pdist). pdist) pdata) of
           Inl e \<Rightarrow> Inl e
         | Inr maxdist \<Rightarrow> kd_dict maxdist eps pdata [])"

fun calc_weights_kd :: "kdtree \<Rightarrow> vec list \<Rightarrow> real \<Rightarrow> nat \<Rightarrow> error + row list" where
  "calc_weights_kd kd [] eps n = Inr []"
| "calc_weights_kd kd (v # vs) eps n =
     (case kd_row kd v eps n of
        Inl e \<Rightarrow> Inl e
      | Inr d \<Rightarrow> (case calc_weights_kd kd vs eps n of Inl e \<Rightarrow> Inl e | Inr ds \<Rightarrow> Inr (d # ds)))"

text \<open>
  \<^verbatim>\<open>calc_weights_direct(weights, char_geom, asset_verts)\<close>. \<open>direct_face_loop\<close> is the inner
  loop over \<^verbatim>\<open>zip(face, poly_3d_calc(...))\<close>, \<open>direct_loop\<close> the loop over the enumerated
  asset vertices. \<^verbatim>\<open>faces[idx]\<close>, \<^verbatim>\<open>weights[i]\<close> and \<^verbatim>\<open>verts[face]\<close> raise
  \<^verbatim>\<open>IndexError\<close> out of range.
\<close>

fun direct_face_loop :: "real \<Rightarrow> row \<Rightarrow> (nat \<times> real) list \<Rightarrow> row" where
  "direct_face_loop fdist d [] = d"
| "direct_face_loop fdist d ((vi, bw) # rest) =
     direct_face_loop fdist (dict_set d vi (max (dict_get d vi 0) (bw * fdist))) rest"

fun direct_loop ::
  "mathutils \<Rightarrow> vec list \<Rightarrow> nat list list \<Rightarrow> bvhtree \<Rightarrow> row list \<Rightarrow> (nat \<times> vec) list
     \<Rightarrow> error + row list" where
  "direct_loop mu vs fs bvh weights [] = Inr weights"
| "direct_loop mu vs fs bvh weights ((i, v) # rest) =
     (case bvh v dist_thresh of
        None \<Rightarrow> direct_loop mu vs fs bvh weights rest
      | Some (loc, idx, fdist) \<Rightarrow>
          if length fs \<le> idx then Inl IndexError
          else if length weights \<le> i then Inl IndexError
          else if \<exists>vi \<in> set (fs ! idx). length vs \<le> vi then Inl IndexError
          else direct_loop mu vs fs bvh
                 (weights[i := direct_face_loop ((1 - fdist / dist_thresh) / max fdist epsilon)
                                 (weights ! i)
                                 (zip (fs ! idx)
                                    (poly_3d_calc mu (map (\<lambda>vi. vs ! vi) (fs ! idx)) loc))])
                 rest)"

definition calc_weights_direct ::
  "mathutils \<Rightarrow> row list \<Rightarrow> geometry \<Rightarrow> vec list \<Rightarrow> error + row list" where
  "calc_weights_direct mu weights char_geom asset_verts =
     (case Geometry_bvh mu char_geom of
        Inl e \<Rightarrow> Inl e
      | Inr bvh \<Rightarrow>
          direct_loop mu (verts char_geom) (faces char_geom) bvh weights (enumerate 0 asset_verts))"

text \<open>
  \<^verbatim>\<open>calc_weights_reverse(weights, char_geom, asset_geom, reduce_func=max)\<close>. Python checks
  no types: the second argument is whatever the caller passes, and the call
  \<^verbatim>\<open>char_geom.verts_enum()\<close> raises \<^verbatim>\<open>AttributeError\<close> on an object without that method,
  such as a numpy array. The surface index of the asset is built before that call.
\<close>

datatype char_arg = GeometryObj geometry | NdArray "vec list"

definition char_verts_enum :: "char_arg \<Rightarrow> error + (nat \<times> vec) list" where
  "char_verts_enum c = (case c of GeometryObj g \<Rightarrow> verts_enum g | NdArray a \<Rightarrow> Inl AttributeError)"

fun reverse_face_loop ::
  "(real \<Rightarrow> real \<Rightarrow> real) \<Rightarrow> nat \<Rightarrow> real \<Rightarrow> row list \<Rightarrow> (nat \<times> real) list \<Rightarrow> error + row list" where
  "reverse_face_loop reduce_func i fdist weights [] = Inr weights"
| "reverse_face_loop reduce_func i fdist weights ((vi, bw) # rest) =
     (if length weights \<le> vi then Inl IndexError
      else reverse_face_loop reduce_func i fdist
             (weights[vi := dict_set (weights ! vi) i
                              (reduce_func (dict_get (weights ! vi) i 0) (bw * fdist))])
             rest)"

fun reverse_loop ::
  "mathutils \<Rightarrow> (real \<Rightarrow> real \<Rightarrow> real) \<Rightarrow> vec list \<Rightarrow> nat list list \<Rightarrow> bvhtree \<Rightarrow> row list
     \<Rightarrow> (nat \<times> vec) list \<Rightarrow> error + row list" where
  "reverse_loop mu reduce_func vs fs bvh weights [] = Inr weights"
| "reverse_loop mu reduce_func vs fs bvh weights ((i, cvert) # rest) =
     (case bvh cvert dist_thresh of
        None \<Rightarrow> reverse_loop mu reduce_func vs fs bvh weights rest
      | Some (loc, idx, fdist) \<Rightarrow>
          if length fs \<le> idx then Inl IndexError
          else if \<exists>j \<in> set (fs ! idx). length vs \<le> j then Inl IndexError
          else (case reverse_face_loop reduce_func i
                       ((1 - fdist / dist_thresh) / max fdist (1 / 10 ^ 15)) weights
                       (zip (fs ! idx) (poly_3d_calc mu (map (\<lambda>j. vs ! j) (fs ! idx)) loc)) of
                  Inl e \<Rightarrow> Inl e
                | Inr weights' \<Rightarrow> reverse_loop mu reduce_func vs fs bvh weights' rest))"

definition calc_weights_reverse ::
  "mathutils \<Rightarrow> row list \<Rightarrow> char_arg \<Rightarrow> geometry \<Rightarrow> (real \<Rightarrow> real \<Rightarrow> real) \<Rightarrow> error + row list" where
  "calc_weights_reverse mu weights char_geom asset_geom reduce_func =
     (case Geometry_bvh mu asset_geom of
        Inl e \<Rightarrow> Inl e
      | Inr bvh \<Rightarrow>
          (case char_verts_enum char_geom of
             Inl e \<Rightarrow> Inl e
           | Inr en \<Rightarrow>
               reverse_loop mu reduce_func (verts asset_geom) (faces asset_geom) bvh weights en))"

text \<open>
  \<^verbatim>\<open>RiggerFitCalculator._calc_weights_kd_reverse(self, weights, asset_verts)\<close>; the first
  argument of the model is \<^verbatim>\<open>self.geom\<close>.
\<close>

fun kd_reverse_inner :: "nat \<Rightarrow> row list \<Rightarrow> (vec \<times> nat \<times> real) list \<Rightarrow> error + row list" where
  "kd_reverse_inner i weights [] = Inr weights"
| "kd_reverse_inner i weights ((co, vi, pdist) # rest) =
     (if length weights \<le> vi then Inl IndexError
      else kd_reverse_inner i
             (weights[vi := dict_set (weights ! vi) i
                              (dict_get (weights ! vi) i 0 + 1 / max (pdist\<^sup>2) repsilon)])
             rest)"

fun kd_reverse_loop :: "kdtree \<Rightarrow> row list \<Rightarrow> (nat \<times> vec) list \<Rightarrow> error + row list" where
  "kd_reverse_loop kd weights [] = Inr weights"
| "kd_reverse_loop kd weights ((i, vert) # rest) =
     (case kd_reverse_inner i weights (find_n kd vert 4) of
        Inl e \<Rightarrow> Inl e
      | Inr weights' \<Rightarrow> kd_reverse_loop kd weights' rest)"

definition calc_weights_kd_reverse :: "geometry \<Rightarrow> row list \<Rightarrow> vec list \<Rightarrow> error + row list" where
  "calc_weights_kd_reverse self_geom weights asset_verts =
     (case verts_enum self_geom of
        Inl e \<Rightarrow> Inl e
      | Inr en \<Rightarrow> kd_reverse_loop (kdtree_from_verts asset_verts) weights en)"

subsection \<open>The calculators\<close>

text \<open>
  A mesh of the host, as far as the calculators read it: its name, the custom property
  \<^verbatim>\<open>charmorph_fit_id\<close> when set, the basis coordinates that \<^verbatim>\<open>charlib.get_basis\<close> reads
  and the vertex ids of its polygons. \<^verbatim>\<open>get_mesh\<close> unwraps an \<^verbatim>\<open>AssetFitData\<close> or an
  object to its mesh.
\<close>

record mesh =
  name :: string
  charmorph_fit_id :: "string option"
  basis :: "vec list"
  polygons :: "nat list list"

record bpy_object =
  data :: mesh

record asset_fit_data =
  obj :: bpy_object
  afd_geom :: geometry

datatype py_data = AssetFitData asset_fit_data | Object bpy_object | Mesh mesh

fun get_mesh :: "py_data \<Rightarrow> mesh" where
  "get_mesh (AssetFitData afd) = data (obj afd)"
| "get_mesh (Object ob) = data ob"
| "get_mesh (Mesh m) = m"

definition mesh_faces :: "mesh \<Rightarrow> nat list list" where
  "mesh_faces m = polygons m"

definition geom_mesh :: "mesh \<Rightarrow> error + geometry" where
  "geom_mesh m = Geometry_init (basis m) (mesh_faces m)"

text \<open>
  A \<^verbatim>\<open>FitCalculator\<close>. Geometry objects have identity in Python: \<open>heap\<close> lists the
  Geometry objects constructed by \<^verbatim>\<open>_get_asset_geom\<close>, an object is named by its position
  there, and \<open>geom_cache\<close> maps dictionary keys to such positions. A key of the
  dictionary is any hashable Python value; the code uses strings and mesh objects, which
  never compare equal to each other.
\<close>

datatype cache_key = StrKey string | MeshKey mesh

record fit_calculator =
  geom :: geometry
  heap :: "geometry list"
  geom_cache :: "cache_key \<rightharpoonup> nat"

definition get_asset_geom :: "fit_calculator \<Rightarrow> py_data \<Rightarrow> error + (nat \<times> fit_calculator)" where
  "get_asset_geom self data0 =
     (let data1 = get_mesh data0;
          key = (case charmorph_fit_id data1 of Some k \<Rightarrow> k | None \<Rightarrow> name data1)
      in case geom_cache self (StrKey key) of
           Some r \<Rightarrow> Inr (r, self)
         | None \<Rightarrow>
             (case geom_mesh data1 of
                Inl e \<Rightarrow> Inl e
              | Inr g \<Rightarrow>
                  Inr (length (heap self),
                       self\<lparr>heap := heap self @ [g],
                            geom_cache := (geom_cache self)(MeshKey data1 \<mapsto> length (heap self))\<rparr>)))"

text \<open>
  \<^verbatim>\<open>FitCalculator._calc_weights_internal(self, asset_verts, afd=None)\<close>, with
  \<^verbatim>\<open>get_char_geom\<close> of the base class (\<^verbatim>\<open>self.geom\<close>). \<open>finalize\<close> is its last stage
  (the lines timed as "finalize"): \<^verbatim>\<open>weights_convert\<close> with pruning, then
  \<^verbatim>\<open>weights_normalize\<close>. The timer calls and \<^verbatim>\<open>reshape(-1, 1)\<close> do not change values.
\<close>

definition finalize :: "row list \<Rightarrow> error + (nat list \<times> nat list \<times> real option list)" where
  "finalize weights =
     (case weights_convert weights True of
        Inl e \<Rightarrow> Inl e
      | Inr (positions, idx, wresult) \<Rightarrow>
          (case weights_normalize positions wresult of
             Inl e \<Rightarrow> Inl e
           | Inr wresult' \<Rightarrow> Inr (positions, idx, wresult')))"

definition calc_weights_internal ::
  "mathutils \<Rightarrow> fit_calculator \<Rightarrow> vec list \<Rightarrow> asset_fit_data option
     \<Rightarrow> error + ((nat list \<times> nat list \<times> real option list) \<times> fit_calculator)" where
  "calc_weights_internal mu self asset_verts afd =
     (let cg = geom self
      in case Geometry_kd cg of
           Inl e \<Rightarrow> Inl e
         | Inr kd \<Rightarrow>
        (case calc_weights_kd kd asset_verts epsilon 16 of
           Inl e \<Rightarrow> Inl e
         | Inr weights0 \<Rightarrow>
        (case calc_weights_direct mu weights0 cg asset_verts of
           Inl e \<Rightarrow> Inl e
         | Inr weights1 \<Rightarrow>
        (case (case afd of
                 None \<Rightarrow> Inr (weights1, self)
               | Some a \<Rightarrow>
                   (case get_asset_geom self (AssetFitData a) of
                      Inl e \<Rightarrow> Inl e
                    | Inr (r, self') \<Rightarrow>
                        (case calc_weights_reverse mu weights1 (GeometryObj cg) (heap self' ! r) max of
                           Inl e \<Rightarrow> Inl e
                         | Inr weights2 \<Rightarrow> Inr (weights2, self')))) of
           Inl e \<Rightarrow> Inl e
         | Inr (weights2, self') \<Rightarrow>
        (case finalize weights2 of
           Inl e \<Rightarrow> Inl e
         | Inr result \<Rightarrow> Inr (result, self'))))))"

text \<open>\<^verbatim>\<open>FitCalculator.get_weights(self, afd)\<close>\<close>

definition get_weights ::
  "mathutils \<Rightarrow> fit_calculator \<Rightarrow> asset_fit_data
     \<Rightarrow> error + ((nat list \<times> nat list \<times> real option list) \<times> fit_calculator)" where
  "get_weights mu self afd =
     (case get_asset_geom self (AssetFitData afd) of
        Inl e \<Rightarrow> Inl e
      | Inr (r, self') \<Rightarrow> calc_weights_internal mu self' (verts (heap self' ! r)) (Some afd))"

text \<open>
  \<^verbatim>\<open>RiggerFitCalculator.get_weights(self, afd)\<close>. The call of the reverse pass is
  \<^verbatim>\<open>calc_weights_reverse(weights, cg.verts, afd.geom, lambda a, b: a + b)\<close>: its second
  argument is the vertex array of the character geometry.
\<close>

definition rigger_get_weights ::
  "mathutils \<Rightarrow> fit_calculator \<Rightarrow> asset_fit_data \<Rightarrow> error + (nat list \<times> nat list \<times> real list)" where
  "rigger_get_weights mu self afd =
     (let cg = geom self; vs = verts (afd_geom afd)
      in case Geometry_kd cg of
           Inl e \<Rightarrow> Inl e
         | Inr kd \<Rightarrow>
        (case calc_weights_kd kd vs repsilon 16 of
           Inl e \<Rightarrow> Inl e
         | Inr weights0 \<Rightarrow>
        (case calc_weights_kd_reverse (geom self) weights0 vs of
           Inl e \<Rightarrow> Inl e
         | Inr weights1 \<Rightarrow>
        (case calc_weights_reverse mu weights1 (NdArray (verts cg)) (afd_geom afd) (\<lambda>a b. a + b) of
           Inl e \<Rightarrow> Inl e
         | Inr weights2 \<Rightarrow> weights_convert weights2 False))))"

subsection \<open>Reading a weight matrix\<close>

text \<open>
  Row \<open>i\<close> of a sparse matrix (row offsets, target ids, weights): the entries from
  \<open>positions[i]\<close> up to \<open>positions[i+1]\<close>, for the last row up to the end.
\<close>

definition row_entries :: "nat list \<times> nat list \<times> 'a list \<Rightarrow> nat \<Rightarrow> (nat \<times> 'a) list" where
  "row_entries W i =
     (case W of (positions, idx, wresult) \<Rightarrow>
        let p = positions ! i;
            q = (if Suc i < length positions then positions ! Suc i else length idx)
        in zip (take (q - p) (drop p idx)) (take (q - p) (drop p wresult)))"

text \<open>The entries of a row that pruning keeps, and the row offsets of a list of rows.\<close>

definition kept :: "row \<Rightarrow> row" where
  "kept d = filter (\<lambda>(k, v). Max (snd ` set d) / 32 \<le> v) d"

fun offsets :: "nat \<Rightarrow> 'a list list \<Rightarrow> nat list" where
  "offsets s [] = []"
| "offsets s (r # rs) = s # offsets (s + length r) rs"

text \<open>
  The scalar multiple and the sum of array results, used to state linearity: an error
  on either side is the error of the whole.
\<close>

definition lift_scale :: "real \<Rightarrow> error + 'a::real_vector list \<Rightarrow> error + 'a list" where
  "lift_scale k r = (case r of Inl e \<Rightarrow> Inl e | Inr a \<Rightarrow> Inr (map (\<lambda>x. k *\<^sub>R x) a))"

definition lift_add :: "error + 'a::real_vector list \<Rightarrow> error + 'a list \<Rightarrow> error + 'a list" where
  "lift_add r1 r2 =
     (case r1 of Inl e \<Rightarrow> Inl e
      | Inr a \<Rightarrow> (case r2 of Inl e \<Rightarrow> Inl e | Inr b \<Rightarrow> Inr (map (\<lambda>(x, y). x + y) (zip a b))))"

subsection \<open>Stating what a pass does\<close>

text \<open>
  \<open>row_le d d'\<close>: every key of the row \<open>d\<close> is a key of \<open>d'\<close>, with a value that is not
  smaller. Between two weight maps the relation is taken row by row
  (\<open>list_all2 row_le\<close>).
\<close>

definition row_le :: "row \<Rightarrow> row \<Rightarrow> bool" where
  "row_le d d' = (\<forall>k \<in> fst ` set d. k \<in> fst ` set d' \<and> dict_get d k 0 \<le> dict_get d' k 0)"

text \<open>A row without a negative weight.\<close>

definition row_nonneg :: "row \<Rightarrow> bool" where
  "row_nonneg d = (\<forall>(k, v) \<in> set d. 0 \<le> v)"

text \<open>
  The factor of the direct pass, \<^verbatim>\<open>(1 - fdist / dist_thresh) / max(fdist, epsilon)\<close>, the
  pairs \<^verbatim>\<open>zip(face, poly_3d_calc(...))\<close> of a hit on face \<open>idx\<close> at \<open>loc\<close>, and what
  the direct pass does to the row \<open>d\<close> of the query vertex \<open>v\<close>.
\<close>

definition direct_scale :: "real \<Rightarrow> real" where
  "direct_scale fdist = (1 - fdist / dist_thresh) / max fdist epsilon"

definition hit_pairs :: "mathutils \<Rightarrow> geometry \<Rightarrow> vec \<Rightarrow> nat \<Rightarrow> (nat \<times> real) list" where
  "hit_pairs mu g loc idx =
     zip (faces g ! idx) (poly_3d_calc mu (map (\<lambda>vi. verts g ! vi) (faces g ! idx)) loc)"

definition direct_row :: "mathutils \<Rightarrow> geometry \<Rightarrow> bvhtree \<Rightarrow> row \<Rightarrow> vec \<Rightarrow> row" where
  "direct_row mu g bvh d v =
     (case bvh v dist_thresh of
        None \<Rightarrow> d
      | Some (loc, idx, fdist) \<Rightarrow> direct_face_loop (direct_scale fdist) d (hit_pairs mu g loc idx))"

text \<open>
  The factor of the reverse pass (with its own epsilon) and the list of the values
  \<^verbatim>\<open>bw * fdist\<close> that the reverse pass hands to \<^verbatim>\<open>reduce_func\<close>, over all character
  vertices with a hit.
\<close>

definition reverse_scale :: "real \<Rightarrow> real" where
  "reverse_scale fdist = (1 - fdist / dist_thresh) / max fdist (1 / 10 ^ 15)"

definition reverse_contributions :: "mathutils \<Rightarrow> char_arg \<Rightarrow> geometry \<Rightarrow> real list" where
  "reverse_contributions mu char_geom asset_geom =
     (case Geometry_bvh mu asset_geom of
        Inl e \<Rightarrow> []
      | Inr bvh \<Rightarrow>
          (case char_verts_enum char_geom of
             Inl e \<Rightarrow> []
           | Inr en \<Rightarrow>
               concat (map (\<lambda>(i, cvert).
                              case bvh cvert dist_thresh of
                                None \<Rightarrow> []
                              | Some (loc, idx, fdist) \<Rightarrow>
                                  map (\<lambda>(vi, bw). bw * reverse_scale fdist)
                                    (hit_pairs mu asset_geom loc idx))
                         en)))"

text \<open>The id and the distance of a triple (point, id, distance) that \<^verbatim>\<open>find_n\<close> returns.\<close>

definition pidx :: "vec \<times> nat \<times> real \<Rightarrow> nat" where
  "pidx t = (case t of (p, i, d) \<Rightarrow> i)"

definition pdist_of :: "vec \<times> nat \<times> real \<Rightarrow> real" where
  "pdist_of t = (case t of (p, i, d) \<Rightarrow> d)"

subsection \<open>Example inputs\<close>

text \<open>A mesh with one triangle and a calculator that has cached nothing yet.\<close>

definition cube :: mesh where
  "cube = \<lparr>name = ''Cube'', charmorph_fit_id = None,
            basis = [(0, 0, 0), (1, 0, 0), (0, 1, 0)], polygons = [[0, 1, 2]]\<rparr>"

definition calc0 :: fit_calculator where
  "calc0 = \<lparr>geom = \<lparr>verts = [], faces = [], subset = None\<rparr>, heap = [], geom_cache = Map.empty\<rparr>"

text \<open>
  A character of one triangle in the plane \<open>z = 0\<close>, a geometry of a single point above
  it, and a stand-in for the library that answers for them: the point
  \<open>(1/4, 1/4, 1/20)\<close> has its nearest surface point \<open>(1/4, 1/4, 0)\<close> on face 0 at
  distance \<open>1/20\<close>, with barycentric weights \<open>1/2, 1/4, 1/4\<close>; no other point has a
  surface point within reach.
\<close>

definition bvh0 :: bvhtree where
  "bvh0 = (\<lambda>v r. if v = (1 / 4, 1 / 4, 1 / 20) \<and> 1 / 20 \<le> r
                   then Some ((1 / 4, 1 / 4, 0), 0, 1 / 20) else None)"

definition mu0 :: mathutils where
  "mu0 = \<lparr>FromPolygons = (\<lambda>vs fs. Inr bvh0), poly_3d_calc = (\<lambda>vs loc. [1 / 2, 1 / 4, 1 / 4])\<rparr>"

definition tri :: geometry where
  "tri = \<lparr>verts = [(0, 0, 0), (1, 0, 0), (0, 1, 0)], faces = [[0, 1, 2]], subset = None\<rparr>"

definition pt :: geometry where
  "pt = \<lparr>verts = [(1 / 4, 1 / 4, 1 / 20)], faces = [], subset = None\<rparr>"

text \<open>Five rig vertices on a line.\<close>

definition rig5 :: "vec list" where
  "rig5 = [(3, 0, 0), (1, 0, 0), (2, 0, 0), (10, 0, 0), (4, 0, 0)]"

section \<open>Properties\<close>

subsection \<open>Assembly: offsets and rows\<close>

lemma py_max_Max: "xs \<noteq> [] \<Longrightarrow> py_max xs = Inr (Max (set xs))"
proof (cases xs)
  case Nil
  assume "xs \<noteq> []"
  with Nil show ?thesis by simp
next
  case (Cons a list)
  show ?thesis
    unfolding Cons py_max_def using Max.set_eq_fold[of a list] by simp
qed

lemma convert_loop_prune:
  "\<forall>d \<in> set ds. d \<noteq> [] \<Longrightarrow> length idx = length w \<Longrightarrow>
   convert_loop True ds th ps idx w =
     Inr (ps @ offsets (length idx) (map kept ds),
          idx @ concat (map (map fst) (map kept ds)),
          w @ concat (map (map snd) (map kept ds)))"
proof (induction ds arbitrary: th ps idx w)
  case Nil
  then show ?case by simp
next
  case (Cons d ds)
  have m: "py_max (map snd d) = Inr (Max (snd ` set d))"
    using Cons.prems(1) by (simp add: py_max_Max)
  have step: "convert_loop True (d # ds) th ps idx w =
      convert_loop True ds (Max (snd ` set d) / 32) (ps @ [length idx])
        (idx @ map fst (kept d)) (w @ map snd (kept d))"
    by (simp only: convert_loop.simps if_True m sum.case kept_def)
  have "convert_loop True ds (Max (snd ` set d) / 32) (ps @ [length idx])
        (idx @ map fst (kept d)) (w @ map snd (kept d)) =
     Inr ((ps @ [length idx]) @ offsets (length (idx @ map fst (kept d))) (map kept ds),
          (idx @ map fst (kept d)) @ concat (map (map fst) (map kept ds)),
          (w @ map snd (kept d)) @ concat (map (map snd) (map kept ds)))"
    using Cons.prems by (intro Cons.IH) simp_all
  then show ?case
    unfolding step by simp
qed

lemma length_offsets [simp]: "length (offsets s rs) = length rs"
  by (induction rs arbitrary: s) simp_all

lemma offsets_nth: "i < length rs \<Longrightarrow> offsets s rs ! i = s + length (concat (take i rs))"
proof (induction rs arbitrary: s i)
  case Nil then show ?case by simp
next
  case (Cons r rs)
  then show ?case by (cases i) simp_all
qed

lemma concat_slice:
  "i < length rs \<Longrightarrow> take (length (rs ! i)) (drop (length (concat (take i rs))) (concat rs)) = rs ! i"
proof -
  assume i: "i < length rs"
  have "concat rs = concat (take i rs) @ rs ! i @ concat (drop (Suc i) rs)"
    using i by (metis append_take_drop_id concat.simps(2) concat_append Cons_nth_drop_Suc)
  then show ?thesis by simp
qed

lemma length_concat_take:
  "map length R1 = map length R2 \<Longrightarrow> length (concat (take i R1)) = length (concat (take i R2))"
proof -
  assume a: "map length R1 = map length R2"
  have "map length (take i R1) = map length (take i R2)"
    using a by (simp add: take_map[symmetric])
  then show ?thesis by (simp add: length_concat)
qed

lemma row_entries_offsets:
  assumes i: "i < length R1" and len: "map length R1 = map length R2"
  shows "row_entries (offsets 0 R1, concat R1, concat R2) i = zip (R1 ! i) (R2 ! i)"
proof -
  have l2: "length R2 = length R1"
    using len by (metis length_map)
  have li: "length (R2 ! i) = length (R1 ! i)"
    using len i l2 by (metis nth_map)
  let ?p = "length (concat (take i R1))"
  have p: "offsets 0 R1 ! i = ?p"
    using i by (simp add: offsets_nth)
  have step: "length (concat (take (Suc i) R1)) = ?p + length (R1 ! i)"
    using i by (simp add: take_Suc_conv_app_nth)
  have q: "(if Suc i < length (offsets 0 R1) then offsets 0 R1 ! Suc i else length (concat R1))
            = ?p + length (R1 ! i)"
  proof (cases "Suc i < length R1")
    case True
    then show ?thesis using step by (simp add: offsets_nth)
  next
    case False
    then have "take (Suc i) R1 = R1" using i by simp
    then show ?thesis using step False by simp
  qed
  have s1: "take (length (R1 ! i)) (drop ?p (concat R1)) = R1 ! i"
    using i by (rule concat_slice)
  have "take (length (R2 ! i)) (drop (length (concat (take i R2))) (concat R2)) = R2 ! i"
    using i l2 by (intro concat_slice) simp
  then have s2: "take (length (R1 ! i)) (drop ?p (concat R2)) = R2 ! i"
    using li length_concat_take[OF len, of i] by simp
  show ?thesis
    unfolding row_entries_def by (simp add: p q s1 s2 Let_def del: length_offsets)
qed

lemma offsets_map_map: "offsets s (map (map f) rs) = offsets s rs"
  by (induction rs arbitrary: s) simp_all

lemma convert_rows_kept:
  assumes ne: "\<forall>d \<in> set weights. d \<noteq> []"
  shows "\<exists>positions idx wresult.
           weights_convert weights True = Inr (positions, idx, wresult) \<and>
           length positions = length weights \<and>
           (\<forall>i < length weights.
              row_entries (positions, idx, wresult) i
                = map (\<lambda>(k, v). (u32_cast k, v)) (kept (weights ! i)))"
proof -
  let ?K = "map kept weights"
  let ?I = "map (map (\<lambda>(k, v). u32_cast k)) ?K"
  have "map u32_cast (concat (map (map fst) ?K)) = concat ?I"
    by (simp add: map_concat comp_def case_prod_unfold)
  then have c: "weights_convert weights True = Inr (offsets 0 ?K, concat ?I, concat (map (map snd) ?K))"
    unfolding weights_convert_def using convert_loop_prune[OF ne, of "[]" "[]" 0 "[]"] by simp
  have r: "row_entries (offsets 0 ?K, concat ?I, concat (map (map snd) ?K)) i
            = map (\<lambda>(k, v). (u32_cast k, v)) (kept (weights ! i))" if "i < length weights" for i
  proof -
    have "row_entries (offsets 0 ?I, concat ?I, concat (map (map snd) ?K)) i
          = zip (?I ! i) (map (map snd) ?K ! i)"
      using that by (intro row_entries_offsets) simp_all
    moreover have "offsets 0 ?I = offsets 0 ?K"
      by (rule offsets_map_map)
    moreover have "zip (map (\<lambda>(k, v). u32_cast k) d) (map snd d) = map (\<lambda>(k, v). (u32_cast k, v)) d"
      for d :: row
      by (induction d) auto
    ultimately show ?thesis using that by simp
  qed
  show ?thesis using c r by simp
qed

lemma u32_cast_id: "k < 2 ^ 32 \<Longrightarrow> u32_cast k = k"
  by (simp add: u32_cast_def)

subsection \<open>Pruning (C2)\<close>

text \<open>
  Whatever the ids are, row \<open>i\<close> of the result holds the entries that pruning keeps of
  row \<open>i\<close>, with their ids as the \<^verbatim>\<open>uint32\<close> array stores them. An id beyond the range
  of that type is stored as another id.
\<close>

lemma weights_convert_wraps_id:
  "weights_convert [[(4294967301, 1)]] True = Inr ([0], [5], [1])"
  by (simp add: weights_convert_def py_max_def u32_cast_def)

text \<open>
  C2, as amended. For every list of nonempty rows whose largest weight is not negative,
  with ids below \<open>2^32\<close> and fewer than \<open>2^32\<close> entries in all (what the \<^verbatim>\<open>uint32\<close> arrays
  of ids and offsets can hold), \<^verbatim>\<open>weights_convert\<close> with \<^verbatim>\<open>cut=True\<close> succeeds, and row
  \<open>i\<close> of the result holds exactly the entries of row \<open>i\<close> whose weight is at least
  \<open>max(row) / 32\<close>, in their order: the strongest entry is among them and no entry
  below \<open>max(row) / 32\<close> is.
\<close>

theorem weights_convert_prune:
  assumes sign: "\<forall>d \<in> set weights. d \<noteq> [] \<and> 0 \<le> Max (snd ` set d)"
    and ids: "\<forall>d \<in> set weights. \<forall>(k, v) \<in> set d. k < 2 ^ 32"
    and entries: "length (concat weights) < 2 ^ 32"
  shows "\<exists>positions idx wresult.
           weights_convert weights True = Inr (positions, idx, wresult) \<and>
           length positions = length weights \<and>
           (\<forall>i < length weights.
              row_entries (positions, idx, wresult) i
                = filter (\<lambda>(k, v). Max (snd ` set (weights ! i)) / 32 \<le> v) (weights ! i) \<and>
              (\<exists>k. (k, Max (snd ` set (weights ! i))) \<in> set (row_entries (positions, idx, wresult) i)) \<and>
              (\<forall>(k, v) \<in> set (row_entries (positions, idx, wresult) i).
                 \<not> v < Max (snd ` set (weights ! i)) / 32))"
proof -
  have ne: "\<forall>d \<in> set weights. d \<noteq> []"
    using sign by blast
  obtain positions idx wresult where
    c: "weights_convert weights True = Inr (positions, idx, wresult)"
    and l: "length positions = length weights"
    and r: "\<forall>i < length weights.
              row_entries (positions, idx, wresult) i
                = map (\<lambda>(k, v). (u32_cast k, v)) (kept (weights ! i))"
    using convert_rows_kept[OF ne] by blast
  have same: "map (\<lambda>(k, v). (u32_cast k, v)) (kept d) = kept d" if d: "d \<in> set weights" for d
  proof (rule map_idI)
    fix x assume "x \<in> set (kept d)"
    then have "x \<in> set d" by (simp add: kept_def)
    then have "fst x < 2 ^ 32" using ids d by (auto simp add: case_prod_unfold)
    then show "(case x of (k, v) \<Rightarrow> (u32_cast k, v)) = x"
      by (cases x) (simp add: u32_cast_id)
  qed
  have row: "kept d = filter (\<lambda>(k, v). Max (snd ` set d) / 32 \<le> v) d \<and>
             (\<exists>k. (k, Max (snd ` set d)) \<in> set (kept d)) \<and>
             (\<forall>(k, v) \<in> set (kept d). \<not> v < Max (snd ` set d) / 32)"
    if d: "d \<in> set weights" for d
  proof -
    have dne: "d \<noteq> []" and pos: "0 \<le> Max (snd ` set d)"
      using sign d by auto
    have "Max (snd ` set d) \<in> snd ` set d"
      using dne by (intro Max_in) simp_all
    then obtain k where k: "(k, Max (snd ` set d)) \<in> set d"
      by force
    have "Max (snd ` set d) / 32 \<le> Max (snd ` set d)"
      using pos by simp
    then have "(k, Max (snd ` set d)) \<in> set (kept d)"
      using k by (simp add: kept_def)
    moreover have "\<forall>(k, v) \<in> set (kept d). \<not> v < Max (snd ` set d) / 32"
      by (auto simp add: kept_def)
    ultimately show ?thesis by (auto simp add: kept_def)
  qed
  have "\<forall>i < length weights.
          row_entries (positions, idx, wresult) i
            = filter (\<lambda>(k, v). Max (snd ` set (weights ! i)) / 32 \<le> v) (weights ! i) \<and>
          (\<exists>k. (k, Max (snd ` set (weights ! i))) \<in> set (row_entries (positions, idx, wresult) i)) \<and>
          (\<forall>(k, v) \<in> set (row_entries (positions, idx, wresult) i).
             \<not> v < Max (snd ` set (weights ! i)) / 32)"
  proof (intro allI impI)
    fix i assume i: "i < length weights"
    then have mem: "weights ! i \<in> set weights" by simp
    have re: "row_entries (positions, idx, wresult) i = kept (weights ! i)"
      using r i same[OF mem] by simp
    show "row_entries (positions, idx, wresult) i
            = filter (\<lambda>(k, v). Max (snd ` set (weights ! i)) / 32 \<le> v) (weights ! i) \<and>
          (\<exists>k. (k, Max (snd ` set (weights ! i))) \<in> set (row_entries (positions, idx, wresult) i)) \<and>
          (\<forall>(k, v) \<in> set (row_entries (positions, idx, wresult) i).
             \<not> v < Max (snd ` set (weights ! i)) / 32)"
      unfolding re by (rule row[OF mem])
  qed
  with c l show ?thesis by blast
qed

theorem weights_convert_prune_witness:
  "[(0::nat, 1::real), (1, 1 / 64), (2, 1 / 2)] \<noteq> [] \<and>
   0 \<le> Max (snd ` set [(0::nat, 1::real), (1, 1 / 64), (2, 1 / 2)]) \<and>
   (0::nat) < 2 ^ 32 \<and> (1::nat) < 2 ^ 32 \<and> (2::nat) < 2 ^ 32 \<and>
   length (concat [[(0::nat, 1::real), (1, 1 / 64), (2, 1 / 2)]]) < 2 ^ 32 \<and>
   weights_convert [[(0, 1), (1, 1 / 64), (2, 1 / 2)]] True = Inr ([0], [0, 2], [1, 1 / 2]) \<and>
   row_entries ([0], [0, 2], [1, 1 / 2 :: real]) 0 = [(0, 1), (2, 1 / 2)]"
proof -
  have h: "\<forall>d \<in> set [[(0::nat, 1::real), (1, 1 / 64), (2, 1 / 2)]]. d \<noteq> [] \<and> 0 \<le> Max (snd ` set d)"
    by simp
  have b: "\<forall>d \<in> set [[(0::nat, 1::real), (1, 1 / 64), (2, 1 / 2)]]. \<forall>(k, v) \<in> set d. k < 2 ^ 32"
    by simp
  have n: "length (concat [[(0::nat, 1::real), (1, 1 / 64), (2, 1 / 2)]]) < 2 ^ 32"
    by simp
  have c: "weights_convert [[(0, 1), (1, 1 / 64), (2, 1 / 2)]] True = Inr ([0], [0, 2], [1, 1 / 2])"
    by (simp add: weights_convert_def py_max_def u32_cast_def)
  show ?thesis
    using h c weights_convert_prune[OF h b n] by (simp add: row_entries_def)
qed

text \<open>
  Without the condition on the sign the claim fails, also for a small id and a single
  entry: a row whose largest weight is negative has its threshold \<open>max(row) / 32\<close> above
  that weight and loses every entry.
\<close>

theorem weights_convert_prune_counterexample:
  "[(0::nat, - 1::real)] \<noteq> [] \<and>
   weights_convert [[(0, - 1)]] True = Inr ([0], [], []) \<and>
   row_entries ([0], [], [] :: real list) 0 = []"
  by (simp add: weights_convert_def py_max_def row_entries_def)

subsection \<open>The rig calculator (C3)\<close>

lemma calc_weights_reverse_NdArray:
  "calc_weights_reverse mu weights (NdArray a) asset_geom reduce_func \<noteq> Inr w"
  by (simp add: calc_weights_reverse_def char_verts_enum_def split: sum.splits)

lemma calc_weights_reverse_AttributeError:
  "Geometry_bvh mu asset_geom = Inr bvh \<Longrightarrow>
   calc_weights_reverse mu weights (NdArray a) asset_geom reduce_func = Inl AttributeError"
  by (simp add: calc_weights_reverse_def char_verts_enum_def)

text \<open>When the stages before the reverse pass succeed, that error is \<^verbatim>\<open>AttributeError\<close>.\<close>

lemma rigger_get_weights_AttributeError:
  assumes "Geometry_kd (geom self) = Inr kd"
    and "calc_weights_kd kd (verts (afd_geom afd)) repsilon 16 = Inr weights0"
    and "calc_weights_kd_reverse (geom self) weights0 (verts (afd_geom afd)) = Inr weights1"
    and "Geometry_bvh mu (afd_geom afd) = Inr bvh"
  shows "rigger_get_weights mu self afd = Inl AttributeError"
  using assms
  by (simp add: rigger_get_weights_def Let_def calc_weights_reverse_AttributeError)

text \<open>
  C3. \<^verbatim>\<open>RiggerFitCalculator.get_weights\<close> passes the sum reduction and converts without
  pruning or normalisation, but it hands \<^verbatim>\<open>cg.verts\<close>, an array, to
  \<^verbatim>\<open>calc_weights_reverse\<close> where \<^verbatim>\<open>_calc_weights_internal\<close> hands the Geometry \<^verbatim>\<open>cg\<close>.
  The call \<^verbatim>\<open>char_geom.verts_enum()\<close> then raises, so on every input the function ends
  in an error and returns no rows.
\<close>

theorem rigger_get_weights_raises:
  "\<exists>e. rigger_get_weights mu self afd = Inl e"
  by (simp add: rigger_get_weights_def Let_def calc_weights_reverse_NdArray split: sum.splits)

subsection \<open>The geometry cache (C7)\<close>

text \<open>
  \<^verbatim>\<open>_get_asset_geom\<close> looks the cache up under the string key and stores under the mesh
  object, so a call never changes what a string key finds.
\<close>

lemma get_asset_geom_StrKey:
  "get_asset_geom self d = Inr (r, self') \<Longrightarrow> geom_cache self' (StrKey k) = geom_cache self (StrKey k)"
  by (auto simp add: get_asset_geom_def Let_def split: option.splits sum.splits)

text \<open>
  C7. On a calculator with an empty cache, two calls of \<^verbatim>\<open>_get_asset_geom\<close> with the
  same mesh construct two Geometry objects: the second call does not find the first
  one and returns a new object.
\<close>

theorem get_asset_geom_rebuilds:
  "case get_asset_geom calc0 (Mesh cube) of
     Inl e \<Rightarrow> False
   | Inr (r1, self1) \<Rightarrow>
       (case get_asset_geom self1 (Mesh cube) of
          Inl e \<Rightarrow> False
        | Inr (r2, self2) \<Rightarrow> r1 = 0 \<and> r2 = 1 \<and> length (heap self1) = 1 \<and> length (heap self2) = 2)"
  by (simp add: get_asset_geom_def calc0_def cube_def geom_mesh_def Geometry_init_def mesh_faces_def)

subsection \<open>Construction of a Geometry (C8)\<close>

text \<open>
  C8, as amended. Constructing a Geometry never fails and checks nothing: the object
  holds the vertices and faces it was given, whatever the faces refer to. The
  nearest-vertex index of a Geometry without vertices is built without an error and is
  empty; the failure comes when it is queried, as the \<^verbatim>\<open>ValueError\<close> of \<^verbatim>\<open>max\<close> on an
  empty sequence in \<^verbatim>\<open>calc_weights_kd\<close>.
\<close>

theorem Geometry_unchecked:
  "Geometry_init vs fs = Inr \<lparr>verts = vs, faces = fs, subset = None\<rparr> \<and>
   Geometry_kd \<lparr>verts = [], faces = fs, subset = None\<rparr> = Inr [] \<and>
   calc_weights_kd [] (v # rest) eps n = Inl ValueError"
  by (simp add: Geometry_init_def Geometry_kd_def verts_enum_def kdtree_from_verts_enum_def
      kd_row_def find_n_def py_max_def)

text \<open>
  A Geometry with no vertices and a face that refers to vertices 0, 1 and 2 is
  constructed, and its nearest-vertex index is built.
\<close>

theorem Geometry_unchecked_counterexample:
  "Geometry_init [] [[0, 1, 2]] = Inr \<lparr>verts = [], faces = [[0, 1, 2]], subset = None\<rparr> \<and>
   Geometry_kd \<lparr>verts = [], faces = [[0, 1, 2]], subset = None\<rparr> = Inr []"
  by (simp add: Geometry_init_def Geometry_kd_def verts_enum_def kdtree_from_verts_enum_def)

subsection \<open>Normalisation (C1)\<close>


lemma offsets_bound:
  "\<forall>r \<in> set R. r \<noteq> [] \<Longrightarrow> p \<in> set (offsets s R) \<Longrightarrow> p < s + length (concat R)"
proof (induction R arbitrary: s)
  case Nil then show ?case by simp
next
  case (Cons r R)
  from Cons.prems(2) have "p = s \<or> p \<in> set (offsets (s + length r) R)" by simp
  then show ?case
  proof
    assume "p = s" then show ?thesis using Cons.prems(1) by simp
  next
    assume "p \<in> set (offsets (s + length r) R)"
    then have "p < s + length r + length (concat R)"
      using Cons.IH[of "s + length r"] Cons.prems(1) by simp
    then show ?thesis by simp
  qed
qed

lemma reduceat_rows_gen:
  fixes R :: "'a::monoid_add list list"
  assumes "\<forall>r \<in> set R. r \<noteq> []"
  shows "map (\<lambda>(p, q). if p < q then sum_list (take (q - p) (drop p (pre @ concat R)))
                        else (pre @ concat R) ! p)
           (zip (offsets (length pre) R)
                (tl (offsets (length pre) R) @ [length (pre @ concat R)]))
         = map sum_list R"
  using assms
proof (induction R arbitrary: pre)
  case Nil then show ?case by simp
next
  case (Cons r R)
  let ?a = "pre @ concat (r # R)"
  let ?s = "length pre + length r"
  have rne: "r \<noteq> []" using Cons.prems by simp
  have nxt: "hd (offsets ?s R @ [length ?a]) = ?s"
    by (cases R) simp_all
  have zipeq: "zip (offsets (length pre) (r # R)) (tl (offsets (length pre) (r # R)) @ [length ?a])
       = (length pre, ?s) # zip (offsets ?s R) (tl (offsets ?s R) @ [length ?a])"
  proof (cases R)
    case Nil then show ?thesis by simp
  next
    case (Cons r' R') then show ?thesis by simp
  qed
  have first: "sum_list (take (?s - length pre) (drop (length pre) ?a)) = sum_list r"
    by simp
  have ih: "map (\<lambda>(p, q). if p < q then sum_list (take (q - p) (drop p ((pre @ r) @ concat R)))
                        else ((pre @ r) @ concat R) ! p)
           (zip (offsets (length (pre @ r)) R)
                (tl (offsets (length (pre @ r)) R) @ [length ((pre @ r) @ concat R)]))
         = map sum_list R"
    using Cons.prems by (intro Cons.IH) simp
  show ?case
    unfolding zipeq using rne first ih by (simp cong: if_cong)
qed

lemma reduceat_rows:
  fixes R :: "'a::monoid_add list list"
  assumes "\<forall>r \<in> set R. r \<noteq> []"
  shows "reduceat (concat R) (offsets 0 R) = Inr (map sum_list R)"
proof -
  have b: "\<not> (\<exists>p \<in> set (offsets 0 R). length (concat R) \<le> p)"
    using offsets_bound[OF assms, of _ 0] by fastforce
  show ?thesis
    unfolding reduceat_def using b reduceat_rows_gen[OF assms, of "[]"] by (simp cong: if_cong)
qed

lemma cnt_rows:
  "R \<noteq> [] \<Longrightarrow>
   map (\<lambda>(p, q). u32_sub q p) (zip (butlast (offsets s R)) (tl (offsets s R)))
     @ [s + length (concat R) - last (offsets s R)] = map length R"
proof (induction R arbitrary: s)
  case Nil then show ?case by simp
next
  case (Cons r R)
  show ?case
  proof (cases R)
    case Nil then show ?thesis by simp
  next
    case (Cons r' R')
    have ih: "map (\<lambda>(p, q). u32_sub q p) (zip (butlast (offsets (s + length r) R)) (tl (offsets (s + length r) R)))
     @ [s + length r + length (concat R) - last (offsets (s + length r) R)] = map length R"
      using Cons.IH[of "s + length r"] Cons by simp
    show ?thesis
      using ih unfolding Cons by (simp add: u32_sub_def add.assoc)
  qed
qed

lemma last_offsets_le:
  "\<forall>r \<in> set R. r \<noteq> [] \<Longrightarrow> R \<noteq> [] \<Longrightarrow> last (offsets s R) < s + length (concat R)"
  using offsets_bound[of R "last (offsets s R)" s] last_in_set[of "offsets s R"]
  by (cases R) auto

lemma repeat_rows:
  "repeat (map f R) (map length R) = concat (map (\<lambda>r. replicate (length r) (f r)) R)"
  by (induction R) (simp_all add: repeat_def)

lemma divide_rows:
  "map (\<lambda>(x, s). np_div x s) (zip (concat R) (concat (map (\<lambda>r. replicate (length r) (f r)) R)))
    = concat (map (\<lambda>r. map (\<lambda>x. np_div x (f r)) r) R)"
proof (induction R)
  case Nil then show ?case by simp
next
  case (Cons r R)
  have "map (\<lambda>(x, s). np_div x s) (zip r (replicate (length r) c)) = map (\<lambda>x. np_div x c) r" for c
    by (induction r) simp_all
  then show ?case using Cons by (simp add: zip_append)
qed

lemma weights_normalize_rows:
  assumes ne: "\<forall>r \<in> set R. r \<noteq> []" and R: "R \<noteq> []"
  shows "weights_normalize (offsets 0 R) (concat R)
           = Inr (concat (map (\<lambda>r. map (\<lambda>x. np_div x (sum_list r)) r) R))"
proof -
  have p: "offsets 0 R \<noteq> []" using R by (cases R) simp_all
  have l: "\<not> length (concat R) < last (offsets 0 R)"
    using last_offsets_le[OF ne R, of 0] by simp
  have cnt: "map (\<lambda>(p, q). u32_sub q p) (zip (butlast (offsets 0 R)) (tl (offsets 0 R)))
     @ [length (concat R) - last (offsets 0 R)] = map length R"
    using cnt_rows[OF R, of 0] by simp
  have len: "length (concat (map (\<lambda>r. replicate (length r) (sum_list r)) R)) = length (concat R)"
    by (simp add: length_concat comp_def)
  show ?thesis
    unfolding weights_normalize_def
    by (simp only: p l cnt if_False Let_def reduceat_rows[OF ne] sum.case repeat_rows len
        if_True divide_rows simp_thms)
qed

lemma sum_list_pos_real:
  fixes xs :: "real list"
  shows "xs \<noteq> [] \<Longrightarrow> \<forall>x \<in> set xs. 0 < x \<Longrightarrow> 0 < sum_list xs"
proof (induction xs)
  case Nil then show ?case by simp
next
  case (Cons x xs)
  show ?case
  proof (cases xs)
    case Nil then show ?thesis using Cons.prems by simp
  next
    case (Cons y ys)
    then have "0 < sum_list xs" using Cons.IH Cons.prems by simp
    then show ?thesis using Cons.prems by simp
  qed
qed

lemma sum_list_div_const:
  fixes xs :: "real list"
  shows "(\<Sum>x \<leftarrow> xs. x / c) = sum_list xs / c"
  by (induction xs) (simp_all add: add_divide_distrib)

lemma Max_pos_of_sum_pos:
  fixes xs :: "real list"
  assumes "0 < sum_list xs"
  shows "0 < Max (set xs)"
proof (rule ccontr)
  assume "\<not> 0 < Max (set xs)"
  moreover have ne: "xs \<noteq> []" using assms by auto
  ultimately have "\<forall>x \<in> set xs. x \<le> 0"
    by (metis List.finite_set Max_ge not_le order.trans linorder_le_cases)
  then have "sum_list xs \<le> 0"
    by (simp add: sum_list_nonpos)
  with assms show False by simp
qed

lemma kept_pos:
  assumes dne: "d \<noteq> []" and M: "0 < Max (snd ` set d)"
  shows "kept d \<noteq> [] \<and> 0 < sum_list (map snd (kept d))"
proof -
  have "Max (snd ` set d) \<in> snd ` set d"
    using dne by (intro Max_in) simp_all
  then obtain k where k: "(k, Max (snd ` set d)) \<in> set d" by force
  have "Max (snd ` set d) / 32 \<le> Max (snd ` set d)" using M by simp
  then have "(k, Max (snd ` set d)) \<in> set (kept d)"
    using k by (simp add: kept_def)
  then have ne: "kept d \<noteq> []" by auto
  have "\<forall>x \<in> set (map snd (kept d)). 0 < x"
  proof
    fix x assume "x \<in> set (map snd (kept d))"
    then have "Max (snd ` set d) / 32 \<le> x" by (auto simp add: kept_def)
    moreover have "0 < Max (snd ` set d) / 32" using M by simp
    ultimately show "0 < x" by linarith
  qed
  then have "0 < sum_list (map snd (kept d))"
    using ne by (intro sum_list_pos_real) simp_all
  with ne show ?thesis by simp
qed

lemma Max_pos_of_row_sum:
  assumes "0 < sum_list (map snd d) \<or> 0 < sum_list (map snd (kept d))"
  shows "0 < Max (snd ` set d)"
  using assms
proof
  assume "0 < sum_list (map snd d)"
  from Max_pos_of_sum_pos[OF this] show ?thesis by simp
next
  assume a: "0 < sum_list (map snd (kept d))"
  then have ne: "map snd (kept d) \<noteq> []" by auto
  have "0 < Max (set (map snd (kept d)))"
    using a by (rule Max_pos_of_sum_pos)
  moreover have "Max (set (map snd (kept d))) \<in> set (map snd (kept d))"
    using ne by (intro Max_in) simp_all
  then have "Max (set (map snd (kept d))) \<in> snd ` set d"
    by (auto simp add: kept_def)
  then have "Max (set (map snd (kept d))) \<le> Max (snd ` set d)"
    by (intro Max_ge) simp_all
  ultimately show ?thesis by linarith
qed

lemma finalize_rows:
  assumes pos: "\<forall>d \<in> set weights. d \<noteq> [] \<and> 0 < Max (snd ` set d)" and ne: "weights \<noteq> []"
  shows "\<exists>positions idx wresult.
           finalize weights = Inr (positions, idx, wresult) \<and>
           length positions = length weights \<and>
           (\<forall>i < length weights.
              row_entries (positions, idx, wresult) i
                = map (\<lambda>(k, v). (u32_cast k, Some (v / sum_list (map snd (kept (weights ! i))))))
                    (kept (weights ! i)))"
proof -
  let ?K = "map kept weights"
  let ?R = "map (map snd) ?K"
  let ?N = "map (\<lambda>r. map (\<lambda>x. np_div x (sum_list r)) r) ?R"
  let ?I = "map (map (\<lambda>(k, v). u32_cast k)) ?K"
  have dne: "\<forall>d \<in> set weights. d \<noteq> []" using pos by blast
  have "map u32_cast (concat (map (map fst) ?K)) = concat ?I"
    by (simp add: map_concat comp_def case_prod_unfold)
  then have c: "weights_convert weights True = Inr (offsets 0 ?K, concat ?I, concat ?R)"
    unfolding weights_convert_def using convert_loop_prune[OF dne, of "[]" "[]" 0 "[]"] by simp
  have Rne: "\<forall>r \<in> set ?R. r \<noteq> []"
    using pos kept_pos by auto
  have n: "weights_normalize (offsets 0 ?R) (concat ?R) = Inr (concat ?N)"
    using ne by (intro weights_normalize_rows[OF Rne]) simp
  have off: "offsets 0 ?R = offsets 0 ?K" "offsets 0 ?I = offsets 0 ?K"
    by (rule offsets_map_map)+
  have f: "finalize weights = Inr (offsets 0 ?K, concat ?I, concat ?N)"
    unfolding finalize_def using c n off by simp
  have r: "row_entries (offsets 0 ?K, concat ?I, concat ?N) i
            = map (\<lambda>(k, v). (u32_cast k, Some (v / sum_list (map snd (kept (weights ! i))))))
                    (kept (weights ! i))" if i: "i < length weights" for i
  proof -
    have "row_entries (offsets 0 ?I, concat ?I, concat ?N) i = zip (?I ! i) (?N ! i)"
      using i by (intro row_entries_offsets) (simp_all add: comp_def)
    moreover have "weights ! i \<in> set weights" using i by simp
    then have "sum_list (map snd (kept (weights ! i))) \<noteq> 0"
      using pos kept_pos[of "weights ! i"] by fastforce
    ultimately show ?thesis
      using i unfolding off by (simp add: np_div_def zip_map_map zip_same_conv_map comp_def case_prod_beta zip_map1 zip_map2)
  qed
  show ?thesis using f r by simp
qed

text \<open>
  C1. Let every row of the accumulated weight map be nonempty with a positive sum (of
  all its weights, or of those that pruning keeps). Then the last stage of \<^verbatim>\<open>_calc_weights_internal\<close>, \<^verbatim>\<open>weights_convert\<close> followed by
  \<^verbatim>\<open>weights_normalize\<close>, returns a matrix with one row per row of the map, every
  weight of it finite, and the weights of each row sum to 1 (in exact arithmetic, hence
  within any tolerance). The stage raises only for a map without rows.
\<close>

theorem finalize_rows_sum_to_one:
  assumes "\<forall>d \<in> set weights.
             d \<noteq> [] \<and> (0 < sum_list (map snd d) \<or> 0 < sum_list (map snd (kept d)))"
  shows "case finalize weights of
           Inl e \<Rightarrow> weights = []
         | Inr W \<Rightarrow>
             length (fst W) = length weights \<and>
             (\<forall>i < length weights.
                row_entries W i \<noteq> [] \<and>
                (\<forall>(k, v) \<in> set (row_entries W i). v \<noteq> None) \<and>
                (\<Sum>(k, v) \<leftarrow> row_entries W i. the v) = 1)"
proof (cases "weights = []")
  case True
  then show ?thesis
    by (simp add: finalize_def weights_convert_def weights_normalize_def)
next
  case False
  have pos: "\<forall>d \<in> set weights. d \<noteq> [] \<and> 0 < Max (snd ` set d)"
    using assms Max_pos_of_row_sum by blast
  obtain positions idx wresult where
    f: "finalize weights = Inr (positions, idx, wresult)"
    and l: "length positions = length weights"
    and r: "\<forall>i < length weights.
              row_entries (positions, idx, wresult) i
                = map (\<lambda>(k, v). (u32_cast k, Some (v / sum_list (map snd (kept (weights ! i))))))
                    (kept (weights ! i))"
    using finalize_rows[OF pos False] by blast
  have "row_entries (positions, idx, wresult) i \<noteq> [] \<and>
        (\<forall>(k, v) \<in> set (row_entries (positions, idx, wresult) i). v \<noteq> None) \<and>
        (\<Sum>(k, v) \<leftarrow> row_entries (positions, idx, wresult) i. the v) = 1"
    if i: "i < length weights" for i
  proof -
    let ?d = "kept (weights ! i)"
    let ?S = "sum_list (map snd ?d)"
    have "weights ! i \<in> set weights" using i by simp
    then have k: "?d \<noteq> []" "0 < ?S"
      using pos kept_pos[of "weights ! i"] by auto
    have re: "row_entries (positions, idx, wresult) i = map (\<lambda>(k, v). (u32_cast k, Some (v / ?S))) ?d"
      using r i by blast
    have "(\<Sum>(k, v) \<leftarrow> map (\<lambda>(k, v). (u32_cast k, Some (v / ?S))) ?d. the v) = (\<Sum>x \<leftarrow> map snd ?d. x / ?S)"
      by (simp add: comp_def case_prod_beta)
    also have "\<dots> = ?S / ?S"
      by (rule sum_list_div_const)
    also have "\<dots> = 1" using k by simp
    finally show ?thesis
      unfolding re using k by (auto)
  qed
  then show ?thesis using f l by simp
qed

theorem finalize_rows_sum_to_one_witness:
  "0 < sum_list (map snd [(0::nat, 1::real), (1, 1 / 64), (2, 1 / 2)]) \<and>
   0 < sum_list (map snd [(5::nat, 2::real)]) \<and>
   finalize [[(0, 1), (1, 1 / 64), (2, 1 / 2)], [(5, 2)]]
     = Inr ([0, 2], [0, 2, 5], [Some (2 / 3), Some (1 / 3), Some 1]) \<and>
   (\<Sum>(k, v) \<leftarrow> row_entries ([0, 2], [0, 2, 5], [Some (2 / 3 :: real), Some (1 / 3), Some 1]) 0. the v) = 1 \<and>
   (\<Sum>(k, v) \<leftarrow> row_entries ([0, 2], [0, 2, 5], [Some (2 / 3 :: real), Some (1 / 3), Some 1]) 1. the v) = 1"
proof -
  have h: "\<forall>d \<in> set [[(0::nat, 1::real), (1, 1 / 64), (2, 1 / 2)], [(5, 2)]].
             d \<noteq> [] \<and> (0 < sum_list (map snd d) \<or> 0 < sum_list (map snd (kept d)))"
    by simp
  have c: "weights_convert [[(0, 1), (1, 1 / 64), (2, 1 / 2)], [(5, 2)]] True
             = Inr ([0, 2], [0, 2, 5], [1, 1 / 2, 2])"
    by (simp add: weights_convert_def py_max_def u32_cast_def)
  have n: "weights_normalize [0, 2] [1, 1 / 2, 2] = Inr [Some (2 / 3), Some (1 / 3), Some 1]"
    by (simp add: weights_normalize_def reduceat_def u32_sub_def repeat_def np_div_def numeral_2_eq_2)
  have f: "finalize [[(0, 1), (1, 1 / 64), (2, 1 / 2)], [(5, 2)]]
     = Inr ([0, 2], [0, 2, 5], [Some (2 / 3), Some (1 / 3), Some 1])"
    by (simp only: finalize_def c n sum.case prod.case)
  show ?thesis
    using finalize_rows_sum_to_one[OF h] f by (simp add: row_entries_def)
qed

text \<open>What \<^verbatim>\<open>_calc_weights_internal\<close> returns is the result of that last stage.\<close>

lemma calc_weights_internal_finalize:
  "calc_weights_internal mu self asset_verts afd = Inr (W, self') \<Longrightarrow>
   \<exists>weights. finalize weights = Inr W"
  by (auto simp add: calc_weights_internal_def Let_def split: sum.splits option.splits prod.splits)

subsection \<open>Linearity of applying weights (C9)\<close>

lemma map_add_zip:
  "(\<And>x. x \<in> set xs \<Longrightarrow> f x = g x + h x) \<Longrightarrow>
   map f xs = map (\<lambda>(x, y). x + y) (zip (map g xs) (map h xs))"
  by (induction xs) simp_all

lemma gather_scale: "gather (map (\<lambda>x. k *\<^sub>R x) X) idx = lift_scale k (gather X idx)"
proof (cases "\<exists>i \<in> set idx. length X \<le> i")
  case True
  then show ?thesis by (simp add: gather_def lift_scale_def)
next
  case False
  then have "\<forall>i \<in> set idx. i < length X" by auto
  then show ?thesis using False by (simp add: gather_def lift_scale_def)
qed

lemma gather_add:
  "length X = length Y \<Longrightarrow>
   gather (map (\<lambda>(x, y). x + y) (zip X Y)) idx = lift_add (gather X idx) (gather Y idx)"
proof (cases "\<exists>i \<in> set idx. length X \<le> i")
  case True
  assume "length X = length Y"
  then show ?thesis using True by (simp add: gather_def lift_add_def)
next
  case False
  assume l: "length X = length Y"
  have b: "\<forall>i \<in> set idx. i < length X" using False by auto
  have "map (\<lambda>i. map (\<lambda>(x, y). x + y) (zip X Y) ! i) idx
      = map (\<lambda>(x, y). x + y) (zip (map (\<lambda>i. X ! i) idx) (map (\<lambda>i. Y ! i) idx))"
    using b l by (intro map_add_zip) simp
  then show ?thesis using False l by (simp add: gather_def lift_add_def)
qed

lemma gather_length: "gather X idx = Inr g \<Longrightarrow> length g = length idx"
  by (auto simp add: gather_def split: if_splits)

lemma np_mul_scale:
  "np_mul (map (\<lambda>x. k *\<^sub>R x) g) ws = lift_scale k (np_mul g ws)"
proof -
  have h: "length g = 1 \<Longrightarrow> hd (map (\<lambda>x. k *\<^sub>R x) g) = k *\<^sub>R hd g"
    by (cases g) simp_all
  show ?thesis
    using h by (auto simp add: np_mul_def lift_scale_def zip_map1 case_prod_beta)
qed

lemma np_mul_add:
  assumes "length g = length h"
  shows "np_mul (map (\<lambda>(x, y). x + y) (zip g h)) ws = lift_add (np_mul g ws) (np_mul h ws)"
proof -
  have hd1: "length g = 1 \<Longrightarrow> hd (map (\<lambda>(x, y). x + y) (zip g h)) = hd g + hd h"
    using assms by (cases g; cases h) simp_all
  have z3: "length g = length ws \<Longrightarrow>
     map (\<lambda>(x, w). w *\<^sub>R x) (zip (map (\<lambda>(x, y). x + y) (zip g h)) ws)
     = map (\<lambda>(x, y). x + y) (zip (map (\<lambda>(x, w). w *\<^sub>R x) (zip g ws)) (map (\<lambda>(x, w). w *\<^sub>R x) (zip h ws)))"
    using assms by (intro nth_equalityI) (simp_all add: scaleR_add_right)
  have z1: "map (\<lambda>w. w *\<^sub>R (hd g + hd h)) ws
     = map (\<lambda>(x, y). x + y) (zip (map (\<lambda>w. w *\<^sub>R hd g) ws) (map (\<lambda>w. w *\<^sub>R hd h) ws))"
    by (intro nth_equalityI) (simp_all add: scaleR_add_right)
  have z2: "map (\<lambda>x. hd ws *\<^sub>R x) (map (\<lambda>(x, y). x + y) (zip g h))
     = map (\<lambda>(x, y). x + y) (zip (map (\<lambda>x. hd ws *\<^sub>R x) g) (map (\<lambda>x. hd ws *\<^sub>R x) h))"
    using assms by (intro nth_equalityI) (simp_all add: scaleR_add_right)
  show ?thesis
    using assms hd1 z1 z2 z3 by (simp add: np_mul_def lift_add_def)
qed

lemma np_mul_length:
  "np_mul g ws = Inr a \<Longrightarrow> np_mul h ws = Inr b \<Longrightarrow> length g = length h \<Longrightarrow> length a = length b"
  by (auto simp add: np_mul_def split: if_splits)

lemma sum_list_scale:
  fixes xs :: "'a::real_vector list"
  shows "sum_list (map (\<lambda>x. k *\<^sub>R x) xs) = k *\<^sub>R sum_list xs"
  by (induction xs) (simp_all add: scaleR_add_right)

lemma sum_list_zip_add:
  fixes xs :: "'a::real_vector list"
  shows "length xs = length ys \<Longrightarrow>
         sum_list (map (\<lambda>(x, y). x + y) (zip xs ys)) = sum_list xs + sum_list ys"
  by (induction xs ys rule: list_induct2) (simp_all add: algebra_simps)

lemma reduceat_scale:
  fixes a :: "'a::real_vector list"
  shows "reduceat (map (\<lambda>x. k *\<^sub>R x) a) ps = lift_scale k (reduceat a ps)"
proof (cases "\<exists>p \<in> set ps. length a \<le> p")
  case True
  then show ?thesis by (simp add: reduceat_def lift_scale_def)
next
  case False
  have "(if p < q then sum_list (take (q - p) (drop p (map (\<lambda>x. k *\<^sub>R x) a))) else map (\<lambda>x. k *\<^sub>R x) a ! p)
      = k *\<^sub>R (if p < q then sum_list (take (q - p) (drop p a)) else a ! p)"
    if "p \<in> set ps" for p q
  proof -
    have "p < length a" using False that by auto
    then show ?thesis
      by (simp add: drop_map take_map sum_list_scale)
  qed
  then have "map (\<lambda>(p, q). if p < q then sum_list (take (q - p) (drop p (map (\<lambda>x. k *\<^sub>R x) a)))
                       else map (\<lambda>x. k *\<^sub>R x) a ! p) (zip ps (tl ps @ [length a]))
     = map (\<lambda>x. k *\<^sub>R x) (map (\<lambda>(p, q). if p < q then sum_list (take (q - p) (drop p a)) else a ! p)
          (zip ps (tl ps @ [length a])))"
    by (auto simp add: set_zip_leftD)
  then show ?thesis
    using False by (simp add: reduceat_def lift_scale_def)
qed

lemma reduceat_add:
  fixes a :: "'a::real_vector list"
  assumes "length a = length b"
  shows "reduceat (map (\<lambda>(x, y). x + y) (zip a b)) ps = lift_add (reduceat a ps) (reduceat b ps)"
proof (cases "\<exists>p \<in> set ps. length a \<le> p")
  case True
  then show ?thesis using assms by (simp add: reduceat_def lift_add_def)
next
  case False
  let ?c = "map (\<lambda>(x, y). x + y) (zip a b)"
  let ?f = "\<lambda>a. \<lambda>(p, q). if p < q then sum_list (take (q - p) (drop p a)) else a ! p"
  let ?z = "zip ps (tl ps @ [length a])"
  have pt: "?f ?c pq = ?f a pq + ?f b pq" if "pq \<in> set ?z" for pq
  proof -
    obtain p q where pq: "pq = (p, q)" by (cases pq)
    have "p \<in> set ps" using that pq by (auto dest: set_zip_leftD)
    then have "p < length a" using False by auto
    then show ?thesis
      using assms unfolding pq
      by (simp add: drop_map take_map drop_zip take_zip sum_list_zip_add)
  qed
  have "map (?f ?c) ?z = map (\<lambda>(x, y). x + y) (zip (map (?f a) ?z) (map (?f b) ?z))"
    using pt by (intro map_add_zip)
  then show ?thesis
    using False assms by (simp add: reduceat_def lift_add_def)
qed

lemma gather_same_error:
  "length X = length Y \<Longrightarrow> gather X idx = Inl e \<Longrightarrow> gather Y idx = Inl e"
  by (auto simp add: gather_def split: if_splits)

lemma np_mul_same_error:
  "length g = length h \<Longrightarrow> np_mul g ws = Inl e \<Longrightarrow> np_mul h ws = Inl e"
  by (auto simp add: np_mul_def split: if_splits)

lemma calc_fit_scale:
  fixes X :: "'a::real_vector list"
  shows "calc_fit (map (\<lambda>x. k *\<^sub>R x) X) W = lift_scale k (calc_fit X W)"
proof -
  obtain ps idx ws where W: "W = (ps, idx, ws)" by (cases W)
  show ?thesis
  proof (cases "gather X idx")
    case (Inl e)
    then show ?thesis by (simp add: W calc_fit_def gather_scale lift_scale_def)
  next
    case g: (Inr g)
    show ?thesis
    proof (cases "np_mul g ws")
      case (Inl e)
      then show ?thesis by (simp add: W calc_fit_def gather_scale g np_mul_scale lift_scale_def)
    next
      case (Inr a)
      then show ?thesis
        using reduceat_scale[of k a ps]
        by (simp add: W calc_fit_def gather_scale g np_mul_scale lift_scale_def)
    qed
  qed
qed

lemma calc_fit_add:
  fixes X Y :: "'a::real_vector list"
  assumes l: "length X = length Y"
  shows "calc_fit (map (\<lambda>(x, y). x + y) (zip X Y)) W = lift_add (calc_fit X W) (calc_fit Y W)"
proof -
  obtain ps idx ws where W: "W = (ps, idx, ws)" by (cases W)
  show ?thesis
  proof (cases "gather X idx")
    case (Inl e)
    then show ?thesis
      using gather_same_error[OF l Inl]
      by (simp add: W calc_fit_def gather_add[OF l] lift_add_def)
  next
    case g: (Inr g)
    show ?thesis
    proof (cases "gather Y idx")
      case (Inl e)
      then show ?thesis
        using gather_same_error[OF l[symmetric] Inl] g by simp
    next
      case h: (Inr h)
      have lgh: "length g = length h"
        using gather_length[OF g] gather_length[OF h] by simp
      have gs: "gather (map (\<lambda>(x, y). x + y) (zip X Y)) idx = Inr (map (\<lambda>(x, y). x + y) (zip g h))"
        by (simp add: gather_add[OF l] g h lift_add_def)
      show ?thesis
      proof (cases "np_mul g ws")
        case (Inl e)
        then show ?thesis
          using np_mul_same_error[OF lgh Inl]
          by (simp add: W calc_fit_def gs g h np_mul_add[OF lgh] lift_add_def)
      next
        case a: (Inr a)
        show ?thesis
        proof (cases "np_mul h ws")
          case (Inl e)
          then show ?thesis
            using np_mul_same_error[OF lgh[symmetric] Inl] a by simp
        next
          case b: (Inr b)
          have lab: "length a = length b"
            using np_mul_length[OF a b lgh] .
          show ?thesis
            using reduceat_add[OF lab, of ps]
            by (simp add: W calc_fit_def gs g h np_mul_add[OF lgh] a b lift_add_def)
        qed
      qed
    qed
  qed
qed

text \<open>
  C9. \<^verbatim>\<open>calc_fit\<close> is linear in the value array: for every weight matrix \<open>W\<close>, every
  scalar \<open>k\<close> and arrays \<open>X\<close>, \<open>Y\<close> of the same length, \<open>calc_fit (k * X) W\<close> is
  \<open>k * calc_fit X W\<close> and \<open>calc_fit (X + Y) W\<close> is \<open>calc_fit X W + calc_fit Y W\<close>, also
  where \<^verbatim>\<open>calc_fit\<close> raises (both sides raise the same error). The elements of the
  arrays are reals or vectors; arithmetic is exact.
\<close>

theorem calc_fit_linear:
  fixes X Y :: "'a::real_vector list"
  assumes "length X = length Y"
  shows "calc_fit (map (\<lambda>x. k *\<^sub>R x) X) W = lift_scale k (calc_fit X W) \<and>
         calc_fit (map (\<lambda>(x, y). x + y) (zip X Y)) W = lift_add (calc_fit X W) (calc_fit Y W)"
  using calc_fit_scale calc_fit_add[OF assms] by blast

theorem calc_fit_linear_witness:
  "length [1, 2, 3 :: real] = length [4, 0, 2 :: real] \<and>
   calc_fit [1, 2, 3 :: real] ([0, 2], [0, 1, 2], [1 / 2, 1 / 2, 1]) = Inr [3 / 2, 3] \<and>
   calc_fit [4, 0, 2 :: real] ([0, 2], [0, 1, 2], [1 / 2, 1 / 2, 1]) = Inr [2, 2] \<and>
   calc_fit (map (\<lambda>x. 2 *\<^sub>R x) [1, 2, 3 :: real]) ([0, 2], [0, 1, 2], [1 / 2, 1 / 2, 1]) = Inr [3, 6] \<and>
   calc_fit (map (\<lambda>(x, y). x + y) (zip [1, 2, 3 :: real] [4, 0, 2])) ([0, 2], [0, 1, 2], [1 / 2, 1 / 2, 1])
     = Inr [7 / 2, 5]"
proof -
  have h: "length [1, 2, 3 :: real] = length [4, 0, 2 :: real]" by simp
  have x: "calc_fit [1, 2, 3 :: real] ([0, 2], [0, 1, 2], [1 / 2, 1 / 2, 1]) = Inr [3 / 2, 3]"
    by (simp add: calc_fit_def gather_def np_mul_def reduceat_def)
  have y: "calc_fit [4, 0, 2 :: real] ([0, 2], [0, 1, 2], [1 / 2, 1 / 2, 1]) = Inr [2, 2]"
    by (simp add: calc_fit_def gather_def np_mul_def reduceat_def)
  show ?thesis
    using calc_fit_linear[OF h, of 2 "([0, 2], [0, 1, 2], [1 / 2, 1 / 2, 1])"]
    unfolding x y by (simp add: lift_scale_def lift_add_def)
qed

subsection \<open>The surface passes (C5, C10)\<close>

lemma map_of_dict_set: "map_of (dict_set d k v) k' = (if k' = k then Some v else map_of d k')"
  by (simp add: dict_set_def update_conv')

lemma keys_dict_set: "fst ` set (dict_set d k v) = insert k (fst ` set d)"
  by (simp add: dict_set_def dom_update)

lemma dict_get_dict_set: "dict_get (dict_set d k v) k' dflt = (if k' = k then v else dict_get d k' dflt)"
  by (simp add: dict_get_def map_of_dict_set)

lemma row_le_refl: "row_le d d"
  by (simp add: row_le_def)

lemma row_le_trans: "row_le a b \<Longrightarrow> row_le b c \<Longrightarrow> row_le a c"
  unfolding row_le_def by (meson order_trans)

lemma row_le_dict_set:
  "dict_get d k 0 \<le> v \<or> k \<notin> fst ` set d \<Longrightarrow> row_le d (dict_set d k v)"
  unfolding row_le_def by (auto simp add: keys_dict_set dict_get_dict_set)

lemma weights_le_refl: "list_all2 row_le ws ws"
  by (simp add: list_all2_refl row_le_refl)

lemma weights_le_trans:
  "list_all2 row_le a b \<Longrightarrow> list_all2 row_le b c \<Longrightarrow> list_all2 row_le a c"
  using list_all2_trans[of row_le row_le row_le a b c] row_le_trans by blast

lemma weights_le_update:
  "i < length ws \<Longrightarrow> row_le (ws ! i) d \<Longrightarrow> list_all2 row_le ws (ws[i := d])"
  by (simp add: list_all2_conv_all_nth nth_list_update row_le_refl)

lemma direct_face_loop_le: "row_le d (direct_face_loop f d zs)"
proof (induction zs arbitrary: d)
  case Nil then show ?case by (simp add: row_le_refl)
next
  case (Cons z zs)
  obtain vi bw where z: "z = (vi, bw)" by (cases z)
  have a: "row_le d (dict_set d vi (max (dict_get d vi 0) (bw * f)))"
    by (intro row_le_dict_set) simp
  have b: "row_le (dict_set d vi (max (dict_get d vi 0) (bw * f)))
             (direct_face_loop f (dict_set d vi (max (dict_get d vi 0) (bw * f))) zs)"
    by (rule Cons.IH)
  show ?case
    unfolding z direct_face_loop.simps by (rule row_le_trans[OF a b])
qed

lemma filter_key_absent:
  "vi \<notin> fst ` set zs \<Longrightarrow> filter (\<lambda>(v, bw). v = vi) zs = []"
  by (induction zs) auto

lemma direct_face_loop_map_of:
  "map_of (direct_face_loop f d zs) vi =
     (if vi \<in> fst ` set zs
      then Some (fold (\<lambda>c a. max a c) (map (\<lambda>(v, bw). bw * f) (filter (\<lambda>(v, bw). v = vi) zs))
                   (dict_get d vi 0))
      else map_of d vi)"
proof (induction zs arbitrary: d)
  case Nil then show ?case by simp
next
  case (Cons z zs)
  obtain v bw where z: "z = (v, bw)" by (cases z)
  let ?d1 = "dict_set d v (max (dict_get d v 0) (bw * f))"
  let ?cs = "map (\<lambda>(v, bw). bw * f) (filter (\<lambda>(v, bw). v = vi) zs)"
  have ih: "map_of (direct_face_loop f ?d1 zs) vi =
     (if vi \<in> fst ` set zs then Some (fold (\<lambda>c a. max a c) ?cs (dict_get ?d1 vi 0))
      else map_of ?d1 vi)"
    by (rule Cons.IH)
  show ?case
  proof (cases "vi = v")
    case True
    have g: "dict_get ?d1 vi 0 = max (dict_get d v 0) (bw * f)"
      and m: "map_of ?d1 vi = Some (max (dict_get d v 0) (bw * f))"
      using True by (simp_all add: dict_get_dict_set map_of_dict_set)
    show ?thesis
    proof (cases "vi \<in> fst ` set zs")
      case in_rest: True
      then show ?thesis
        unfolding z using ih g True by simp
    next
      case False
      then have "?cs = []" by (simp add: filter_key_absent)
      then show ?thesis
        unfolding z using ih m False True by simp
    qed
  next
    case False
    have g: "dict_get ?d1 vi 0 = dict_get d vi 0" and m: "map_of ?d1 vi = map_of d vi"
      using False by (simp_all add: dict_get_dict_set map_of_dict_set)
    show ?thesis
      unfolding z using ih g m False by auto
  qed
qed

lemma direct_loop_rows:
  "direct_loop mu (verts g) (faces g) bvh ws (enumerate n xs) = Inr ws' \<Longrightarrow>
   length ws' = length ws \<and>
   (\<forall>j < length ws. ws' ! j =
      (if n \<le> j \<and> j < n + length xs then direct_row mu g bvh (ws ! j) (xs ! (j - n)) else ws ! j))"
proof (induction xs arbitrary: n ws)
  case Nil then show ?case by auto
next
  case (Cons x xs)
  show ?case
  proof (cases "bvh x dist_thresh")
    case None
    then have "direct_loop mu (verts g) (faces g) bvh ws (enumerate (Suc n) xs) = Inr ws'"
      using Cons.prems by simp
    from Cons.IH[OF this] show ?thesis
      using None by (auto simp add: direct_row_def nth_Cons' Suc_diff_le)
  next
    case (Some hit)
    obtain loc idx fdist where hit: "hit = (loc, idx, fdist)" by (cases hit)
    let ?d = "direct_face_loop (direct_scale fdist) (ws ! n) (hit_pairs mu g loc idx)"
    have n: "n < length ws"
      and rest: "direct_loop mu (verts g) (faces g) bvh (ws[n := ?d]) (enumerate (Suc n) xs) = Inr ws'"
      using Cons.prems Some hit
      by (auto simp add: direct_scale_def hit_pairs_def split: if_splits)
    have dr: "direct_row mu g bvh (ws ! n) x = ?d"
      using Some hit by (simp add: direct_row_def)
    from Cons.IH[OF rest] show ?thesis
      using n dr by (auto simp add: nth_Cons' nth_list_update Suc_diff_le)
  qed
qed

text \<open>
  The direct pass runs to its end when the weight map has a row for every asset vertex
  and every hit names a face of the geometry whose vertices exist.
\<close>

lemma direct_loop_returns:
  assumes "\<forall>(i, v) \<in> set en. i < length ws \<and>
             (case bvh v dist_thresh of
                None \<Rightarrow> True
              | Some (loc, idx, fdist) \<Rightarrow> idx < length fs \<and> (\<forall>vi \<in> set (fs ! idx). vi < length vs))"
  shows "\<exists>ws'. direct_loop mu vs fs bvh ws en = Inr ws'"
  using assms
proof (induction en arbitrary: ws)
  case Nil then show ?case by simp
next
  case (Cons x en)
  obtain i v where x: "x = (i, v)" by (cases x)
  have rest: "\<forall>(i, v) \<in> set en. i < length (ws[j := d]) \<and>
             (case bvh v dist_thresh of
                None \<Rightarrow> True
              | Some (loc, idx, fdist) \<Rightarrow> idx < length fs \<and> (\<forall>vi \<in> set (fs ! idx). vi < length vs))"
    for j d
    using Cons.prems by simp
  show ?case
  proof (cases "bvh v dist_thresh")
    case None
    then show ?thesis using Cons.IH[of ws] Cons.prems x by simp
  next
    case (Some hit)
    obtain loc idx fdist where hit: "hit = (loc, idx, fdist)" by (cases hit)
    have ok: "i < length ws" "idx < length fs" "\<forall>vi \<in> set (fs ! idx). vi < length vs"
      using Cons.prems x Some hit by auto
    then have nb: "\<not> (\<exists>vi \<in> set (fs ! idx). length vs \<le> vi)" by auto
    show ?thesis
      using Cons.IH[OF rest] ok(1,2) nb Some hit x by (simp del: list_update_id)
  qed
qed

lemma calc_weights_direct_returns:
  assumes "Geometry_bvh mu cg = Inr bvh" and "length asset_verts \<le> length weights"
    and "\<forall>v \<in> set asset_verts.
           (case bvh v dist_thresh of
              None \<Rightarrow> True
            | Some (loc, idx, fdist) \<Rightarrow>
                idx < length (faces cg) \<and> (\<forall>vi \<in> set (faces cg ! idx). vi < length (verts cg)))"
  shows "\<exists>weights'. calc_weights_direct mu weights cg asset_verts = Inr weights'"
proof -
  have "\<forall>(i, v) \<in> set (enumerate 0 asset_verts). i < length weights \<and>
             (case bvh v dist_thresh of
                None \<Rightarrow> True
              | Some (loc, idx, fdist) \<Rightarrow>
                  idx < length (faces cg) \<and> (\<forall>vi \<in> set (faces cg ! idx). vi < length (verts cg)))"
  proof (clarify)
    fix i v assume m: "(i, v) \<in> set (enumerate 0 asset_verts)"
    then have i: "i < length asset_verts" and v: "v = asset_verts ! i"
      by (simp_all add: in_set_enumerate_eq)
    then have "v \<in> set asset_verts" by simp
    then show "i < length weights \<and>
             (case bvh v dist_thresh of
                None \<Rightarrow> True
              | Some (loc, idx, fdist) \<Rightarrow>
                  idx < length (faces cg) \<and> (\<forall>vi \<in> set (faces cg ! idx). vi < length (verts cg)))"
      using assms(2,3) i by auto
  qed
  then have "\<exists>ws'. direct_loop mu (verts cg) (faces cg) bvh weights (enumerate 0 asset_verts) = Inr ws'"
    by (rule direct_loop_returns[where vs = "verts cg" and fs = "faces cg"])
  then show ?thesis
    using assms(1) by (simp add: calc_weights_direct_def)
qed

lemma filter_key_distinct:
  "distinct (map fst zs) \<Longrightarrow> (vi, bw) \<in> set zs \<Longrightarrow> filter (\<lambda>(v, b). v = vi) zs = [(vi, bw)]"
proof (induction zs)
  case Nil then show ?case by simp
next
  case (Cons z zs)
  obtain v b where z: "z = (v, b)" by (cases z)
  show ?case
  proof (cases "v = vi")
    case True
    then have "vi \<notin> fst ` set zs" using Cons.prems(1) z by simp
    then have "filter (\<lambda>(v, b). v = vi) zs = []" "(vi, bw) \<notin> set zs"
      by (simp add: filter_key_absent, force)
    then show ?thesis using Cons.prems(2) True z by simp
  next
    case False
    then show ?thesis using Cons z by simp
  qed
qed

text \<open>
  C5. Let \<^verbatim>\<open>calc_weights_direct\<close> run to its end on a weight map with a row for the
  asset vertex \<open>i\<close>. If the surface index finds no point within \<^verbatim>\<open>dist_thresh\<close> = 0.1 of
  the vertex, row \<open>i\<close> is unchanged. Otherwise, for each vertex \<open>vi\<close> of the hit face with
  its barycentric weight \<open>bw\<close>, the entry of \<open>vi\<close> becomes the maximum of its former value
  (0 when absent) and \<open>bw * (1 - fdist / 0.1) / max(fdist, 1e-30)\<close>; entries of other
  keys are untouched, and no entry of the row is removed or made smaller.
\<close>

theorem calc_weights_direct_rows:
  assumes run: "calc_weights_direct mu weights cg asset_verts = Inr weights'"
    and bvh: "Geometry_bvh mu cg = Inr bvh"
    and i: "i < length asset_verts" "i < length weights"
  shows "length weights' = length weights \<and>
    (case bvh (asset_verts ! i) dist_thresh of
       None \<Rightarrow> weights' ! i = weights ! i
     | Some (loc, idx, fdist) \<Rightarrow>
         (distinct (faces cg ! idx) \<longrightarrow>
            (\<forall>(vi, bw) \<in> set (hit_pairs mu cg loc idx).
               map_of (weights' ! i) vi
                 = Some (max (dict_get (weights ! i) vi 0)
                           (bw * (1 - fdist / (1 / 10)) / max fdist (1 / 10 ^ 30))))) \<and>
         (\<forall>vi. vi \<notin> fst ` set (hit_pairs mu cg loc idx) \<longrightarrow>
               map_of (weights' ! i) vi = map_of (weights ! i) vi) \<and>
         row_le (weights ! i) (weights' ! i))"
proof -
  have loop: "direct_loop mu (verts cg) (faces cg) bvh weights (enumerate 0 asset_verts) = Inr weights'"
    using run bvh by (simp add: calc_weights_direct_def)
  from direct_loop_rows[OF loop] i
  have len: "length weights' = length weights"
    and row: "weights' ! i = direct_row mu cg bvh (weights ! i) (asset_verts ! i)"
    by simp_all
  show ?thesis
  proof (cases "bvh (asset_verts ! i) dist_thresh")
    case None
    then show ?thesis using len row by (simp add: direct_row_def)
  next
    case (Some hit)
    obtain loc idx fdist where hit: "hit = (loc, idx, fdist)" by (cases hit)
    let ?zs = "hit_pairs mu cg loc idx"
    have r: "weights' ! i = direct_face_loop (direct_scale fdist) (weights ! i) ?zs"
      using row Some hit by (simp add: direct_row_def)
    have sc: "bw * (1 - fdist / (1 / 10)) / max fdist (1 / 10 ^ 30) = bw * direct_scale fdist" for bw
      by (simp add: direct_scale_def dist_thresh_def epsilon_def)
    have a: "\<forall>(vi, bw) \<in> set ?zs.
               map_of (weights' ! i) vi
                 = Some (max (dict_get (weights ! i) vi 0)
                           (bw * (1 - fdist / (1 / 10)) / max fdist (1 / 10 ^ 30)))"
      if d: "distinct (faces cg ! idx)"
    proof (clarify)
      fix vi bw assume m: "(vi, bw) \<in> set ?zs"
      have "distinct (map fst ?zs)"
        using d by (simp add: hit_pairs_def map_fst_zip_take)
      from filter_key_distinct[OF this m] m
      show "map_of (weights' ! i) vi
                 = Some (max (dict_get (weights ! i) vi 0)
                           (bw * (1 - fdist / (1 / 10)) / max fdist (1 / 10 ^ 30)))"
        unfolding sc r direct_face_loop_map_of by force
    qed
    have b: "\<forall>vi. vi \<notin> fst ` set ?zs \<longrightarrow> map_of (weights' ! i) vi = map_of (weights ! i) vi"
      unfolding r direct_face_loop_map_of by simp
    have c: "row_le (weights ! i) (weights' ! i)"
      unfolding r by (rule direct_face_loop_le)
    show ?thesis
      using len a b c Some hit by simp
  qed
qed

theorem calc_weights_direct_rows_witness:
  "calc_weights_direct mu0 [[(0, 1), (7, 3)], [(1, 2)]] tri [(1 / 4, 1 / 4, 1 / 20), (5, 5, 5)]
     = Inr [[(0, 5), (7, 3), (1, 5 / 2), (2, 5 / 2)], [(1, 2)]] \<and>
   Geometry_bvh mu0 tri = Inr bvh0 \<and>
   (0::nat) < length [(1 / 4, 1 / 4, 1 / 20), (5, 5, 5) :: vec] \<and>
   (0::nat) < length [[(0::nat, 1::real), (7, 3)], [(1, 2)]] \<and>
   bvh0 ([(1 / 4, 1 / 4, 1 / 20), (5, 5, 5)] ! 0) dist_thresh = Some ((1 / 4, 1 / 4, 0), 0, 1 / 20) \<and>
   distinct (faces tri ! 0) \<and>
   hit_pairs mu0 tri (1 / 4, 1 / 4, 0) 0 = [(0, 1 / 2), (1, 1 / 4), (2, 1 / 4)] \<and>
   row_le ([[(0, 1), (7, 3)], [(1, 2)]] ! 0) ([[(0, 5), (7, 3), (1, 5 / 2), (2, 5 / 2)], [(1, 2)]] ! 0)"
proof -
  have b: "Geometry_bvh mu0 tri = Inr bvh0"
    by (simp add: Geometry_bvh_def mu0_def)
  have h: "bvh0 (1 / 4, 1 / 4, 1 / 20) (1 / 10) = Some ((1 / 4, 1 / 4, 0), 0, 1 / 20)"
    "bvh0 (5, 5, 5) (1 / 10) = None"
    by (simp_all add: bvh0_def)
  have run: "calc_weights_direct mu0 [[(0, 1), (7, 3)], [(1, 2)]] tri [(1 / 4, 1 / 4, 1 / 20), (5, 5, 5)]
     = Inr [[(0, 5), (7, 3), (1, 5 / 2), (2, 5 / 2)], [(1, 2)]]"
    unfolding calc_weights_direct_def b
    by (simp add: h tri_def mu0_def enumerate_eq_zip upt_rec dict_set_def dict_get_def
        dist_thresh_def epsilon_def)
  have i1: "(0::nat) < length [(1 / 4, 1 / 4, 1 / 20), (5, 5, 5) :: vec]" by simp
  have i2: "(0::nat) < length [[(0::nat, 1::real), (7, 3)], [(1, 2)]]" by simp
  show ?thesis
    using calc_weights_direct_rows[OF run b i1 i2] run b h
    by (simp add: hit_pairs_def tri_def mu0_def dist_thresh_def row_le_def dict_get_def)
qed

lemma reverse_face_loop_le:
  "\<forall>(vi, bw) \<in> set zs. \<forall>a. a \<le> rf a (bw * f) \<Longrightarrow>
   reverse_face_loop rf i f ws zs = Inr ws' \<Longrightarrow> list_all2 row_le ws ws'"
proof (induction zs arbitrary: ws)
  case Nil then show ?case by (simp add: weights_le_refl)
next
  case (Cons z zs)
  obtain vi bw where z: "z = (vi, bw)" by (cases z)
  let ?d = "dict_set (ws ! vi) i (rf (dict_get (ws ! vi) i 0) (bw * f))"
  have vi: "vi < length ws" and rest: "reverse_face_loop rf i f (ws[vi := ?d]) zs = Inr ws'"
    using Cons.prems(2) z by (auto split: if_splits)
  have "dict_get (ws ! vi) i 0 \<le> rf (dict_get (ws ! vi) i 0) (bw * f)"
    using Cons.prems(1) z by simp
  then have "row_le (ws ! vi) ?d"
    by (intro row_le_dict_set) simp
  then have a: "list_all2 row_le ws (ws[vi := ?d])"
    using vi by (intro weights_le_update)
  have b: "list_all2 row_le (ws[vi := ?d]) ws'"
    using Cons.prems(1) rest by (intro Cons.IH) simp_all
  show ?case by (rule weights_le_trans[OF a b])
qed

lemma reverse_loop_le:
  assumes "\<forall>c \<in> set (concat (map (\<lambda>(i, cvert).
                              case bvh cvert dist_thresh of
                                None \<Rightarrow> []
                              | Some (loc, idx, fdist) \<Rightarrow>
                                  map (\<lambda>(vi, bw). bw * reverse_scale fdist) (hit_pairs mu g loc idx))
                         en)). \<forall>a. a \<le> rf a c"
    and "reverse_loop mu rf (verts g) (faces g) bvh ws en = Inr ws'"
  shows "list_all2 row_le ws ws'"
  using assms
proof (induction en arbitrary: ws)
  case Nil then show ?case by (simp add: weights_le_refl)
next
  case (Cons x en)
  obtain i cvert where x: "x = (i, cvert)" by (cases x)
  show ?case
  proof (cases "bvh cvert dist_thresh")
    case None
    then show ?thesis using Cons x by simp
  next
    case (Some hit)
    obtain loc idx fdist where hit: "hit = (loc, idx, fdist)" by (cases hit)
    obtain ws1 where
      f: "reverse_face_loop rf i (reverse_scale fdist) ws (hit_pairs mu g loc idx) = Inr ws1"
      and rest: "reverse_loop mu rf (verts g) (faces g) bvh ws1 en = Inr ws'"
      using Cons.prems(2) x Some hit
      by (auto simp add: reverse_scale_def hit_pairs_def split: if_splits sum.splits)
    have "\<forall>(vi, bw) \<in> set (hit_pairs mu g loc idx). \<forall>a. a \<le> rf a (bw * reverse_scale fdist)"
      using Cons.prems(1) x Some hit by auto
    from reverse_face_loop_le[OF this f] have a: "list_all2 row_le ws ws1" .
    have b: "list_all2 row_le ws1 ws'"
      using Cons.prems(1) rest x by (intro Cons.IH) auto
    show ?thesis by (rule weights_le_trans[OF a b])
  qed
qed

lemma calc_weights_reverse_le:
  assumes "\<forall>c \<in> set (reverse_contributions mu char_geom asset_geom). \<forall>a. a \<le> rf a c"
    and "calc_weights_reverse mu weights char_geom asset_geom rf = Inr weights'"
  shows "list_all2 row_le weights weights'"
proof -
  obtain bvh en where b: "Geometry_bvh mu asset_geom = Inr bvh"
    and e: "char_verts_enum char_geom = Inr en"
    and l: "reverse_loop mu rf (verts asset_geom) (faces asset_geom) bvh weights en = Inr weights'"
    using assms(2) by (auto simp add: calc_weights_reverse_def split: sum.splits)
  show ?thesis
    using assms(1) l unfolding reverse_contributions_def b e
    by (intro reverse_loop_le[where rf = rf]) simp_all
qed

lemma calc_weights_direct_le:
  assumes "calc_weights_direct mu weights cg asset_verts = Inr weights'"
  shows "list_all2 row_le weights weights'"
proof -
  obtain bvh where b: "Geometry_bvh mu cg = Inr bvh"
    and l: "direct_loop mu (verts cg) (faces cg) bvh weights (enumerate 0 asset_verts) = Inr weights'"
    using assms by (auto simp add: calc_weights_direct_def split: sum.splits)
  have "row_le d (direct_row mu cg bvh d v)" for d v
    by (auto simp add: direct_row_def row_le_refl direct_face_loop_le split: option.splits)
  then show ?thesis
    using direct_loop_rows[OF l] by (auto simp add: list_all2_conv_all_nth row_le_refl)
qed

text \<open>
  C10. A completed run of \<^verbatim>\<open>calc_weights_direct\<close>, of \<^verbatim>\<open>calc_weights_reverse\<close> with the
  default reduction \<^verbatim>\<open>max\<close>, or of \<^verbatim>\<open>calc_weights_reverse\<close> with the sum as reduction
  when all contributions are non-negative, removes no entry of the weight map and makes
  no entry smaller.
\<close>

theorem passes_never_decrease:
  "(calc_weights_direct mu weights cg asset_verts = Inr w1 \<longrightarrow> list_all2 row_le weights w1) \<and>
   (calc_weights_reverse mu weights char_geom asset_geom max = Inr w2 \<longrightarrow>
      list_all2 row_le weights w2) \<and>
   ((\<forall>c \<in> set (reverse_contributions mu char_geom asset_geom). 0 \<le> c) \<and>
    calc_weights_reverse mu weights char_geom asset_geom (\<lambda>a b. a + b) = Inr w3 \<longrightarrow>
      list_all2 row_le weights w3)"
proof (intro conjI impI)
  assume "calc_weights_direct mu weights cg asset_verts = Inr w1"
  then show "list_all2 row_le weights w1" by (rule calc_weights_direct_le)
next
  assume r: "calc_weights_reverse mu weights char_geom asset_geom max = Inr w2"
  show "list_all2 row_le weights w2"
    by (rule calc_weights_reverse_le[OF _ r]) simp
next
  assume a: "(\<forall>c \<in> set (reverse_contributions mu char_geom asset_geom). 0 \<le> c) \<and>
    calc_weights_reverse mu weights char_geom asset_geom (\<lambda>a b. a + b) = Inr w3"
  then have a1: "\<forall>c \<in> set (reverse_contributions mu char_geom asset_geom). \<forall>x::real. x \<le> x + c"
    and a2: "calc_weights_reverse mu weights char_geom asset_geom (\<lambda>a b. a + b) = Inr w3"
    by simp_all
  show "list_all2 row_le weights w3"
    by (rule calc_weights_reverse_le[OF a1 a2])
qed

theorem passes_never_decrease_witness:
  "calc_weights_direct mu0 [[(0, 1), (7, 3)], [(1, 2)]] tri [(1 / 4, 1 / 4, 1 / 20), (5, 5, 5)]
     = Inr [[(0, 5), (7, 3), (1, 5 / 2), (2, 5 / 2)], [(1, 2)]] \<and>
   list_all2 row_le [[(0, 1), (7, 3)], [(1, 2)]] [[(0, 5), (7, 3), (1, 5 / 2), (2, 5 / 2)], [(1, 2)]] \<and>
   calc_weights_reverse mu0 [[(0, 1)], [], [(0, 7)]] (GeometryObj pt) tri max
     = Inr [[(0, 5)], [(0, 5 / 2)], [(0, 7)]] \<and>
   list_all2 row_le [[(0, 1)], [], [(0, 7)]] [[(0, 5)], [(0, 5 / 2)], [(0, 7)]] \<and>
   reverse_contributions mu0 (GeometryObj pt) tri = [5, 5 / 2, 5 / 2] \<and>
   calc_weights_reverse mu0 [[(0, 1)], [], [(0, 7)]] (GeometryObj pt) tri (\<lambda>a b. a + b)
     = Inr [[(0, 6)], [(0, 5 / 2)], [(0, 19 / 2)]] \<and>
   list_all2 row_le [[(0, 1)], [], [(0, 7)]] [[(0, 6)], [(0, 5 / 2)], [(0, 19 / 2)]]"
proof -
  have b: "Geometry_bvh mu0 tri = Inr bvh0"
    by (simp add: Geometry_bvh_def mu0_def)
  have h: "bvh0 (1 / 4, 1 / 4, 1 / 20) (1 / 10) = Some ((1 / 4, 1 / 4, 0), 0, 1 / 20)"
    "bvh0 (5, 5, 5) (1 / 10) = None"
    by (simp_all add: bvh0_def)
  have e: "char_verts_enum (GeometryObj pt) = Inr [(0, (1 / 4, 1 / 4, 1 / 20))]"
    by (simp add: char_verts_enum_def verts_enum_def pt_def enumerate_eq_zip)
  have d: "calc_weights_direct mu0 [[(0, 1), (7, 3)], [(1, 2)]] tri [(1 / 4, 1 / 4, 1 / 20), (5, 5, 5)]
     = Inr [[(0, 5), (7, 3), (1, 5 / 2), (2, 5 / 2)], [(1, 2)]]"
    unfolding calc_weights_direct_def b
    by (simp add: h tri_def mu0_def enumerate_eq_zip upt_rec dict_set_def dict_get_def
        dist_thresh_def epsilon_def)
  have r1: "calc_weights_reverse mu0 [[(0, 1)], [], [(0, 7)]] (GeometryObj pt) tri max
     = Inr [[(0, 5)], [(0, 5 / 2)], [(0, 7)]]"
    unfolding calc_weights_reverse_def b e
    by (simp add: h tri_def mu0_def dict_set_def dict_get_def dist_thresh_def)
  have r2: "calc_weights_reverse mu0 [[(0, 1)], [], [(0, 7)]] (GeometryObj pt) tri (\<lambda>a b. a + b)
     = Inr [[(0, 6)], [(0, 5 / 2)], [(0, 19 / 2)]]"
    unfolding calc_weights_reverse_def b e
    by (simp add: h tri_def mu0_def dict_set_def dict_get_def dist_thresh_def)
  have c: "reverse_contributions mu0 (GeometryObj pt) tri = [5, 5 / 2, 5 / 2]"
    unfolding reverse_contributions_def b e
    by (simp add: h tri_def mu0_def hit_pairs_def reverse_scale_def dist_thresh_def)
  have c0: "\<forall>c \<in> set (reverse_contributions mu0 (GeometryObj pt) tri). 0 \<le> c"
    unfolding c by simp
  show ?thesis
    using passes_never_decrease[where mu = mu0 and weights = "[[(0, 1), (7, 3)], [(1, 2)]]"
        and cg = tri and asset_verts = "[(1 / 4, 1 / 4, 1 / 20), (5, 5, 5)]"
        and ?w1.0 = "[[(0, 5), (7, 3), (1, 5 / 2), (2, 5 / 2)], [(1, 2)]]"]
      passes_never_decrease[where mu = mu0 and weights = "[[(0, 1)], [], [(0, 7)]]"
        and char_geom = "GeometryObj pt" and asset_geom = tri
        and ?w2.0 = "[[(0, 5)], [(0, 5 / 2)], [(0, 7)]]"
        and ?w3.0 = "[[(0, 6)], [(0, 5 / 2)], [(0, 19 / 2)]]"]
      d r1 r2 c c0
    by simp
qed

subsection \<open>The nearest-vertex index\<close>

lemma vdist_nonneg: "0 \<le> vdist a b"
  by (cases a; cases b) (simp add: vdist_def)

lemma find_n_length: "length (find_n kd co n) = min n (length kd)"
  by (simp add: find_n_def min.commute)

lemma find_n_set:
  assumes "t \<in> set (find_n kd co n)"
  shows "\<exists>p i. t = (p, i, vdist p co) \<and> (p, i) \<in> set kd"
proof -
  have "t \<in> set (map (\<lambda>(p, i). (p, i, vdist p co)) kd)"
    using assms unfolding find_n_def by (auto dest: in_set_takeD)
  then show ?thesis by auto
qed

lemma find_n_distinct:
  assumes "distinct (map snd kd)"
  shows "distinct (map pidx (find_n kd co n))"
proof -
  let ?xs = "map (\<lambda>(p, i). (p, i, vdist p co)) kd"
  let ?S = "sort_key (\<lambda>(p, i, d). d) ?xs"
  have "map pidx ?xs = map snd kd"
    by (simp add: pidx_def comp_def case_prod_beta)
  then have "distinct (map pidx ?xs)" using assms by (simp only:)
  then have "distinct ?xs \<and> inj_on pidx (set ?xs)"
    by (simp only: distinct_map)
  then have "distinct ?S \<and> inj_on pidx (set ?S)"
    by (simp only: distinct_sort set_sort)
  then have "distinct (map pidx ?S)"
    by (simp only: distinct_map)
  then have "distinct (take n (map pidx ?S))"
    by (rule distinct_take)
  then show ?thesis
    by (simp add: find_n_def take_map)
qed

lemma find_n_nearest:
  assumes t: "t \<in> set (find_n kd co n)"
    and q: "(q, j) \<in> set kd" and j: "j \<notin> pidx ` set (find_n kd co n)"
  shows "pdist_of t \<le> vdist q co"
proof -
  let ?xs = "map (\<lambda>(p, i). (p, i, vdist p co)) kd"
  let ?S = "sort_key (\<lambda>(p, i, d). d) ?xs"
  have fn: "find_n kd co n = take n ?S" by (simp add: find_n_def)
  have key: "(\<lambda>(p, i, d). d) = pdist_of"
    by (auto simp add: pdist_of_def)
  have "(q, j, vdist q co) \<in> set ?xs" using q by force
  then have "(q, j, vdist q co) \<in> set ?S" by simp
  then have "(q, j, vdist q co) \<in> set (take n ?S) \<union> set (drop n ?S)"
    by (metis append_take_drop_id set_append)
  moreover have "(q, j, vdist q co) \<notin> set (take n ?S)"
    using j unfolding fn by (force simp add: pidx_def)
  ultimately have d: "(q, j, vdist q co) \<in> set (drop n ?S)" by simp
  have "sorted (map pdist_of ?S)"
    unfolding key[symmetric] by (rule sorted_sort_key)
  then have "sorted (map pdist_of (take n ?S) @ map pdist_of (drop n ?S))"
    by (metis append_take_drop_id map_append)
  then have "\<forall>x \<in> set (map pdist_of (take n ?S)). \<forall>y \<in> set (map pdist_of (drop n ?S)). x \<le> y"
    by (simp add: sorted_append)
  then have "pdist_of t \<le> pdist_of (q, j, vdist q co)"
    using t d unfolding fn by auto
  then show ?thesis by (simp add: pdist_of_def)
qed

lemma kdtree_from_verts_set:
  "(p, i) \<in> set (kdtree_from_verts vs) \<longleftrightarrow> i < length vs \<and> p = vs ! i"
  by (auto simp add: kdtree_from_verts_def kdtree_from_verts_enum_def in_set_enumerate_eq)

lemma kdtree_from_verts_distinct: "distinct (map snd (kdtree_from_verts vs))"
proof -
  have "map snd (kdtree_from_verts vs) = map fst (enumerate 0 vs)"
    by (simp add: kdtree_from_verts_def kdtree_from_verts_enum_def comp_def case_prod_beta)
  then show ?thesis by simp
qed

lemma kdtree_from_verts_length: "length (kdtree_from_verts vs) = length vs"
  by (simp add: kdtree_from_verts_def kdtree_from_verts_enum_def)

subsection \<open>Coverage by the rig calculator (C4)\<close>

lemma dict_get_cong_map_of: "map_of d k = map_of d' k \<Longrightarrow> dict_get d k x = dict_get d' k x"
  by (simp add: dict_get_def)

lemma kd_reverse_inner_rows:
  assumes "distinct (map pidx ps)" and "\<forall>t \<in> set ps. pidx t < length ws"
  shows "\<exists>ws'. kd_reverse_inner i ws ps = Inr ws' \<and> length ws' = length ws \<and>
           (\<forall>t \<in> set ps. map_of (ws' ! pidx t) i
                = Some (dict_get (ws ! pidx t) i 0 + 1 / max ((pdist_of t)\<^sup>2) repsilon)) \<and>
           (\<forall>vj k. vj < length ws \<longrightarrow> (k \<noteq> i \<or> vj \<notin> pidx ` set ps) \<longrightarrow>
                map_of (ws' ! vj) k = map_of (ws ! vj) k)"
  using assms
proof (induction ps arbitrary: ws)
  case Nil then show ?case by simp
next
  case (Cons t ps)
  obtain p vi d where t: "t = (p, vi, d)" by (cases t)
  let ?c = "1 / max (d\<^sup>2) repsilon"
  let ?ws1 = "ws[vi := dict_set (ws ! vi) i (dict_get (ws ! vi) i 0 + ?c)]"
  have vi: "vi < length ws" and fresh: "vi \<notin> pidx ` set ps"
    using Cons.prems t by (auto simp add: pidx_def)
  have step: "kd_reverse_inner i ws (t # ps) = kd_reverse_inner i ?ws1 ps"
    using vi t by simp
  have "\<exists>ws'. kd_reverse_inner i ?ws1 ps = Inr ws' \<and> length ws' = length ?ws1 \<and>
           (\<forall>t \<in> set ps. map_of (ws' ! pidx t) i
                = Some (dict_get (?ws1 ! pidx t) i 0 + 1 / max ((pdist_of t)\<^sup>2) repsilon)) \<and>
           (\<forall>vj k. vj < length ?ws1 \<longrightarrow> (k \<noteq> i \<or> vj \<notin> pidx ` set ps) \<longrightarrow>
                map_of (ws' ! vj) k = map_of (?ws1 ! vj) k)"
    using Cons.prems by (intro Cons.IH) simp_all
  then obtain ws' where run: "kd_reverse_inner i ?ws1 ps = Inr ws'"
    and len: "length ws' = length ws"
    and hit: "\<forall>t \<in> set ps. map_of (ws' ! pidx t) i
                = Some (dict_get (?ws1 ! pidx t) i 0 + 1 / max ((pdist_of t)\<^sup>2) repsilon)"
    and same: "\<forall>vj k. vj < length ws \<longrightarrow> (k \<noteq> i \<or> vj \<notin> pidx ` set ps) \<longrightarrow>
                map_of (ws' ! vj) k = map_of (?ws1 ! vj) k"
    by auto
  have head: "map_of (ws' ! pidx t) i = Some (dict_get (ws ! pidx t) i 0 + 1 / max ((pdist_of t)\<^sup>2) repsilon)"
  proof -
    have "map_of (ws' ! vi) i = map_of (?ws1 ! vi) i"
      using same vi fresh by blast
    then show ?thesis
      using vi t by (simp add: pidx_def pdist_of_def map_of_dict_set)
  qed
  have tail: "map_of (ws' ! pidx u) i = Some (dict_get (ws ! pidx u) i 0 + 1 / max ((pdist_of u)\<^sup>2) repsilon)"
    if u: "u \<in> set ps" for u
  proof -
    have "pidx u \<noteq> vi" using fresh u by auto
    then have "?ws1 ! pidx u = ws ! pidx u" by simp
    then show ?thesis using hit u by simp
  qed
  have unchanged: "map_of (ws' ! vj) k = map_of (ws ! vj) k"
    if vj: "vj < length ws" and c: "k \<noteq> i \<or> vj \<notin> pidx ` set (t # ps)" for vj k
  proof -
    have a: "map_of (ws' ! vj) k = map_of (?ws1 ! vj) k"
      using same vj c by auto
    have "map_of (?ws1 ! vj) k = map_of (ws ! vj) k"
    proof (cases "vj = vi")
      case True
      then have "k \<noteq> i" using c t by (auto simp add: pidx_def)
      then show ?thesis using True vi by (simp add: map_of_dict_set)
    next
      case False
      then show ?thesis by simp
    qed
    with a show ?thesis by simp
  qed
  show ?case
    unfolding step using run len head tail unchanged by auto
qed

lemma kd_reverse_loop_rows:
  assumes "distinct (map fst en)"
    and "\<forall>(i, v) \<in> set en. distinct (map pidx (find_n kd v 4)) \<and>
            (\<forall>t \<in> set (find_n kd v 4). pidx t < length ws)"
  shows "\<exists>ws'. kd_reverse_loop kd ws en = Inr ws' \<and> length ws' = length ws \<and>
           (\<forall>(i, v) \<in> set en. \<forall>t \<in> set (find_n kd v 4).
              map_of (ws' ! pidx t) i
                = Some (dict_get (ws ! pidx t) i 0 + 1 / max ((pdist_of t)\<^sup>2) repsilon)) \<and>
           (\<forall>vj k. vj < length ws \<longrightarrow> k \<notin> fst ` set en \<longrightarrow>
                map_of (ws' ! vj) k = map_of (ws ! vj) k)"
  using assms
proof (induction en arbitrary: ws)
  case Nil then show ?case by simp
next
  case (Cons x en)
  obtain i v where x: "x = (i, v)" by (cases x)
  have fresh: "i \<notin> fst ` set en" and d: "distinct (map fst en)"
    using Cons.prems(1) x by auto
  have near: "distinct (map pidx (find_n kd v 4))" "\<forall>t \<in> set (find_n kd v 4). pidx t < length ws"
    using Cons.prems(2) x by auto
  from kd_reverse_inner_rows[OF near, of i]
  obtain ws1 where in1: "kd_reverse_inner i ws (find_n kd v 4) = Inr ws1"
    and len1: "length ws1 = length ws"
    and hit1: "\<forall>t \<in> set (find_n kd v 4). map_of (ws1 ! pidx t) i
                = Some (dict_get (ws ! pidx t) i 0 + 1 / max ((pdist_of t)\<^sup>2) repsilon)"
    and same1: "\<forall>vj k. vj < length ws \<longrightarrow> (k \<noteq> i \<or> vj \<notin> pidx ` set (find_n kd v 4)) \<longrightarrow>
                map_of (ws1 ! vj) k = map_of (ws ! vj) k"
    by blast
  have pre: "\<forall>(i, v) \<in> set en. distinct (map pidx (find_n kd v 4)) \<and>
            (\<forall>t \<in> set (find_n kd v 4). pidx t < length ws1)"
    using Cons.prems(2) len1 by auto
  from Cons.IH[OF d pre]
  obtain ws' where run: "kd_reverse_loop kd ws1 en = Inr ws'"
    and len: "length ws' = length ws1"
    and hit: "\<forall>(i, v) \<in> set en. \<forall>t \<in> set (find_n kd v 4).
              map_of (ws' ! pidx t) i
                = Some (dict_get (ws1 ! pidx t) i 0 + 1 / max ((pdist_of t)\<^sup>2) repsilon)"
    and same: "\<forall>vj k. vj < length ws1 \<longrightarrow> k \<notin> fst ` set en \<longrightarrow>
                map_of (ws' ! vj) k = map_of (ws1 ! vj) k"
    by blast
  have head: "map_of (ws' ! pidx t) i
                = Some (dict_get (ws ! pidx t) i 0 + 1 / max ((pdist_of t)\<^sup>2) repsilon)"
    if t: "t \<in> set (find_n kd v 4)" for t
  proof -
    have "pidx t < length ws1" using near(2) t len1 by simp
    then have "map_of (ws' ! pidx t) i = map_of (ws1 ! pidx t) i"
      using same fresh by blast
    then show ?thesis using hit1 t by simp
  qed
  have tail: "map_of (ws' ! pidx t) j
                = Some (dict_get (ws ! pidx t) j 0 + 1 / max ((pdist_of t)\<^sup>2) repsilon)"
    if m: "(j, u) \<in> set en" and t: "t \<in> set (find_n kd u 4)" for j u t
  proof -
    have ji: "j \<noteq> i" using fresh m by force
    have b: "pidx t < length ws" using Cons.prems(2) m t by auto
    have "map_of (ws1 ! pidx t) j = map_of (ws ! pidx t) j"
      using same1 b ji by blast
    then have "dict_get (ws1 ! pidx t) j 0 = dict_get (ws ! pidx t) j 0"
      by (rule dict_get_cong_map_of)
    then show ?thesis using hit m t by force
  qed
  have unchanged: "map_of (ws' ! vj) k = map_of (ws ! vj) k"
    if vj: "vj < length ws" and k: "k \<notin> fst ` set (x # en)" for vj k
  proof -
    have "k \<noteq> i" "k \<notin> fst ` set en" using k x by auto
    then show ?thesis using same same1 vj len1 by simp
  qed
  have step: "kd_reverse_loop kd ws (x # en) = Inr ws'"
    using x in1 run by simp
  show ?case
    unfolding step using len len1 head tail unchanged x by auto
qed

lemma dict_get_nonneg:
  "\<forall>(k, v) \<in> set d. 0 \<le> v \<Longrightarrow> 0 \<le> dict_get d k 0"
  by (auto simp add: dict_get_def split: option.splits dest: map_of_SomeD)

lemma repsilon_contribution_pos: "0 < 1 / max (x\<^sup>2) repsilon"
proof -
  have "0 < repsilon" by (simp add: repsilon_def)
  then have "0 < max (x\<^sup>2) repsilon" by (simp add: less_max_iff_disj)
  then show ?thesis by simp
qed

text \<open>
  C4, as amended. Let the rig calculator's geometry be a Geometry of the character
  vertices, let the weight map have a row per asset vertex with no negative weight, and
  let the asset have at least 4 vertices. Then \<^verbatim>\<open>_calc_weights_kd_reverse\<close> returns, and
  for every character vertex \<open>i\<close>: the index yields 4 distinct asset vertices, none
  farther than any asset vertex left out; in the row of each of them the entry of \<open>i\<close>
  is its former value (0 when absent) plus the positive amount
  \<open>1 / max(dist\<^sup>2, 1e-5)\<close>, so the entry is positive; hence \<open>i\<close> is a key of at least one
  row.
\<close>

theorem calc_weights_kd_reverse_coverage:
  assumes g: "Geometry_init cverts cfaces = Inr g"
    and len: "length weights = length asset_verts"
    and nonneg: "\<forall>d \<in> set weights. \<forall>(k, v) \<in> set d. 0 \<le> v"
    and a4: "4 \<le> length asset_verts"
  shows "\<exists>weights'.
     calc_weights_kd_reverse g weights asset_verts = Inr weights' \<and>
     length weights' = length weights \<and>
     (\<forall>i < length cverts.
        length (find_n (kdtree_from_verts asset_verts) (cverts ! i) 4) = 4 \<and>
        distinct (map pidx (find_n (kdtree_from_verts asset_verts) (cverts ! i) 4)) \<and>
        (\<forall>t \<in> set (find_n (kdtree_from_verts asset_verts) (cverts ! i) 4).
           pidx t < length asset_verts \<and>
           pdist_of t = vdist (asset_verts ! pidx t) (cverts ! i) \<and>
           (\<forall>vj < length asset_verts.
              vj \<notin> pidx ` set (find_n (kdtree_from_verts asset_verts) (cverts ! i) 4) \<longrightarrow>
              pdist_of t \<le> vdist (asset_verts ! vj) (cverts ! i)) \<and>
           map_of (weights' ! pidx t) i
             = Some (dict_get (weights ! pidx t) i 0 + 1 / max ((pdist_of t)\<^sup>2) (1 / 10 ^ 5)) \<and>
           0 < 1 / max ((pdist_of t)\<^sup>2) (1 / 10 ^ 5) \<and>
           0 < dict_get (weights' ! pidx t) i 0) \<and>
        (\<exists>vi < length weights'. i \<in> fst ` set (weights' ! vi)))"
proof -
  let ?kd = "kdtree_from_verts asset_verts"
  let ?en = "enumerate 0 cverts"
  have ge: "verts_enum g = Inr ?en"
    using g by (auto simp add: Geometry_init_def verts_enum_def)
  have den: "distinct (map fst ?en)" by simp
  have near_d: "distinct (map pidx (find_n ?kd v 4))" for v
    by (rule find_n_distinct[OF kdtree_from_verts_distinct])
  have near_in: "pidx t < length asset_verts \<and> pdist_of t = vdist (asset_verts ! pidx t) v"
    if tin: "t \<in> set (find_n ?kd v 4)" for t v
  proof -
    obtain p i where "t = (p, i, vdist p v)" "(p, i) \<in> set ?kd"
      using find_n_set[OF tin] by blast
    then show ?thesis
      by (simp add: kdtree_from_verts_set pidx_def pdist_of_def)
  qed
  have pre: "\<forall>(i, v) \<in> set ?en. distinct (map pidx (find_n ?kd v 4)) \<and>
            (\<forall>t \<in> set (find_n ?kd v 4). pidx t < length weights)"
    using near_d near_in len by auto
  from kd_reverse_loop_rows[OF den pre]
  obtain ws' where run: "kd_reverse_loop ?kd weights ?en = Inr ws'"
    and lw: "length ws' = length weights"
    and hit: "\<forall>(i, v) \<in> set ?en. \<forall>t \<in> set (find_n ?kd v 4).
              map_of (ws' ! pidx t) i
                = Some (dict_get (weights ! pidx t) i 0 + 1 / max ((pdist_of t)\<^sup>2) repsilon)"
    by blast
  have res: "calc_weights_kd_reverse g weights asset_verts = Inr ws'"
    using run ge by (simp add: calc_weights_kd_reverse_def)
  have row: "length (find_n ?kd (cverts ! i) 4) = 4 \<and>
        distinct (map pidx (find_n ?kd (cverts ! i) 4)) \<and>
        (\<forall>t \<in> set (find_n ?kd (cverts ! i) 4).
           pidx t < length asset_verts \<and>
           pdist_of t = vdist (asset_verts ! pidx t) (cverts ! i) \<and>
           (\<forall>vj < length asset_verts.
              vj \<notin> pidx ` set (find_n ?kd (cverts ! i) 4) \<longrightarrow>
              pdist_of t \<le> vdist (asset_verts ! vj) (cverts ! i)) \<and>
           map_of (ws' ! pidx t) i
             = Some (dict_get (weights ! pidx t) i 0 + 1 / max ((pdist_of t)\<^sup>2) (1 / 10 ^ 5)) \<and>
           0 < 1 / max ((pdist_of t)\<^sup>2) (1 / 10 ^ 5) \<and>
           0 < dict_get (ws' ! pidx t) i 0) \<and>
        (\<exists>vi < length ws'. i \<in> fst ` set (ws' ! vi))"
    if i: "i < length cverts" for i
  proof -
    let ?near = "find_n ?kd (cverts ! i) 4"
    have mem: "(i, cverts ! i) \<in> set ?en"
      using i by (simp add: in_set_enumerate_eq)
    have l4: "length ?near = 4"
      using a4 by (simp add: find_n_length kdtree_from_verts_length)
    have each: "pidx t < length asset_verts \<and>
           pdist_of t = vdist (asset_verts ! pidx t) (cverts ! i) \<and>
           (\<forall>vj < length asset_verts. vj \<notin> pidx ` set ?near \<longrightarrow>
              pdist_of t \<le> vdist (asset_verts ! vj) (cverts ! i)) \<and>
           map_of (ws' ! pidx t) i
             = Some (dict_get (weights ! pidx t) i 0 + 1 / max ((pdist_of t)\<^sup>2) (1 / 10 ^ 5)) \<and>
           0 < 1 / max ((pdist_of t)\<^sup>2) (1 / 10 ^ 5) \<and>
           0 < dict_get (ws' ! pidx t) i 0"
      if t: "t \<in> set ?near" for t
    proof -
      have b: "pidx t < length asset_verts"
        and dd: "pdist_of t = vdist (asset_verts ! pidx t) (cverts ! i)"
        using near_in[OF t] by simp_all
      have nearest: "\<forall>vj < length asset_verts. vj \<notin> pidx ` set ?near \<longrightarrow>
              pdist_of t \<le> vdist (asset_verts ! vj) (cverts ! i)"
      proof (intro allI impI)
        fix vj assume "vj < length asset_verts" "vj \<notin> pidx ` set ?near"
        then show "pdist_of t \<le> vdist (asset_verts ! vj) (cverts ! i)"
          using find_n_nearest[OF t, of "asset_verts ! vj" vj]
          by (simp add: kdtree_from_verts_set)
      qed
      have m: "map_of (ws' ! pidx t) i
             = Some (dict_get (weights ! pidx t) i 0 + 1 / max ((pdist_of t)\<^sup>2) (1 / 10 ^ 5))"
        using hit mem t by (auto simp add: repsilon_def)
      have cpos: "0 < 1 / max ((pdist_of t)\<^sup>2) (1 / 10 ^ 5)"
        using repsilon_contribution_pos[of "pdist_of t"] by (simp add: repsilon_def)
      have "weights ! pidx t \<in> set weights" using b len by simp
      then have g0: "0 \<le> dict_get (weights ! pidx t) i 0"
        using nonneg by (intro dict_get_nonneg) blast
      have "dict_get (ws' ! pidx t) i 0
              = dict_get (weights ! pidx t) i 0 + 1 / max ((pdist_of t)\<^sup>2) (1 / 10 ^ 5)"
        unfolding dict_get_def[of "ws' ! pidx t"] m by simp
      then have "0 < dict_get (ws' ! pidx t) i 0"
        using g0 cpos by linarith
      with b dd nearest m cpos show ?thesis by blast
    qed
    have "?near \<noteq> []" using l4 by auto
    then obtain t where t: "t \<in> set ?near"
      using hd_in_set by blast
    have "map_of (ws' ! pidx t) i \<noteq> None" using each[OF t] by simp
    then have "i \<in> fst ` set (ws' ! pidx t)"
      by (simp add: map_of_eq_None_iff)
    moreover have "pidx t < length ws'" using each[OF t] lw len by simp
    ultimately have "\<exists>vi < length ws'. i \<in> fst ` set (ws' ! vi)" by blast
    then show ?thesis using l4 near_d each by blast
  qed
  show ?thesis
    using res lw row by blast
qed

lemma find_n_rig5:
  "find_n (kdtree_from_verts rig5) (0, 0, 0) 4
     = [((1, 0, 0), 1, 1), ((2, 0, 0), 2, 2), ((3, 0, 0), 0, 3), ((4, 0, 0), 4, 4)]"
  by (simp add: find_n_def kdtree_from_verts_def kdtree_from_verts_enum_def rig5_def
      enumerate_eq_zip upt_rec vdist_def)

theorem calc_weights_kd_reverse_coverage_witness:
  "Geometry_init [(0, 0, 0)] [] = Inr \<lparr>verts = [(0, 0, 0)], faces = [], subset = None\<rparr> \<and>
   length [[], [], [], [], [] :: row] = length rig5 \<and>
   4 \<le> length rig5 \<and>
   calc_weights_kd_reverse \<lparr>verts = [(0, 0, 0)], faces = [], subset = None\<rparr> [[], [], [], [], []] rig5
     = Inr [[(0, 1 / 9)], [(0, 1)], [(0, 1 / 4)], [], [(0, 1 / 16)]] \<and>
   map pidx (find_n (kdtree_from_verts rig5) ([(0, 0, 0)] ! 0) 4) = [1, 2, 0, 4]"
proof -
  have g: "Geometry_init [(0, 0, 0)] [] = Inr \<lparr>verts = [(0, 0, 0)], faces = [], subset = None\<rparr>"
    by (simp add: Geometry_init_def)
  have l: "length [[], [], [], [], [] :: row] = length rig5"
    by (simp add: rig5_def)
  have n: "\<forall>d \<in> set [[], [], [], [], [] :: row]. \<forall>(k, v) \<in> set d. 0 \<le> v"
    by simp
  have a: "4 \<le> length rig5" by (simp add: rig5_def)
  have run: "calc_weights_kd_reverse \<lparr>verts = [(0, 0, 0)], faces = [], subset = None\<rparr>
       [[], [], [], [], []] rig5
     = Inr [[(0, 1 / 9)], [(0, 1)], [(0, 1 / 4)], [], [(0, 1 / 16)]]"
    by (simp add: calc_weights_kd_reverse_def verts_enum_def enumerate_eq_zip find_n_rig5
        dict_set_def dict_get_def repsilon_def)
  show ?thesis
    using calc_weights_kd_reverse_coverage[OF g l n a] g l a run
    by (simp add: find_n_rig5 pidx_def)
qed

text \<open>
  The entry is the increment itself only where the row had no entry for the vertex: the
  pass adds to what is there. With the seed weight 2 for character vertex 0 in the row
  of asset vertex 1, at distance 1, the entry becomes 3, not 1.
\<close>

theorem calc_weights_kd_reverse_counterexample:
  "find_n (kdtree_from_verts rig5) (0, 0, 0) 4
     = [((1, 0, 0), 1, 1), ((2, 0, 0), 2, 2), ((3, 0, 0), 0, 3), ((4, 0, 0), 4, 4)] \<and>
   calc_weights_kd_reverse \<lparr>verts = [(0, 0, 0)], faces = [], subset = None\<rparr>
       [[], [(0, 2)], [], [], []] rig5
     = Inr [[(0, 1 / 9)], [(0, 3)], [(0, 1 / 4)], [], [(0, 1 / 16)]] \<and>
   map_of ([[(0, 1 / 9)], [(0, 3)], [(0, 1 / 4)], [], [(0, 1 / 16 :: real)]] ! 1) 0 = Some 3 \<and>
   1 / max (1\<^sup>2) (1 / 10 ^ 5) = (1 :: real)"
  by (simp add: calc_weights_kd_reverse_def verts_enum_def enumerate_eq_zip find_n_rig5
        dict_set_def dict_get_def repsilon_def)

subsection \<open>Nearest-vertex seeding (C6)\<close>

lemma kd_row_zero:
  assumes ne: "find_n kd v n \<noteq> []" and z: "\<forall>t \<in> set (find_n kd v n). pdist_of t = 0"
  shows "kd_row kd v eps n = Inl ZeroDivisionError"
proof -
  let ?ds = "map (\<lambda>(co, idx, pdist). pdist) (find_n kd v n)"
  have dne: "?ds \<noteq> []" using ne by simp
  have "set ?ds = {0}"
    using ne z by (cases "find_n kd v n") (auto simp add: pdist_of_def)
  then have m: "py_max ?ds = Inr 0"
    using py_max_Max[OF dne] by simp
  obtain t ts where c: "find_n kd v n = t # ts"
    using ne by (cases "find_n kd v n") auto
  obtain co idx pd where t: "t = (co, idx, pd)" by (cases t)
  show ?thesis
    unfolding kd_row_def Let_def m by (simp add: c t)
qed

text \<open>
  C6. A character whose 16 vertices all lie at the origin and a query point at the
  origin: the 16 nearest vertices are at distance 0, so is their largest distance, and
  \<^verbatim>\<open>dist / maxdist\<close> raises \<^verbatim>\<open>ZeroDivisionError\<close>. \<^verbatim>\<open>calc_weights_kd\<close> returns no row.
\<close>

theorem calc_weights_kd_coincident:
  "Geometry_kd \<lparr>verts = replicate 16 (0, 0, 0), faces = [], subset = None\<rparr>
     = Inr (kdtree_from_verts (replicate 16 (0, 0, 0))) \<and>
   calc_weights_kd (kdtree_from_verts (replicate 16 (0, 0, 0))) [(0, 0, 0)] epsilon 16
     = Inl ZeroDivisionError"
proof -
  let ?kd = "kdtree_from_verts (replicate 16 (0, 0, 0))"
  have g: "Geometry_kd \<lparr>verts = replicate 16 (0, 0, 0), faces = [], subset = None\<rparr> = Inr ?kd"
    by (simp add: Geometry_kd_def verts_enum_def kdtree_from_verts_def verts_cnt_def)
  have "length (find_n ?kd (0, 0, 0) 16) = 16"
    by (simp add: find_n_length kdtree_from_verts_length)
  then have ne: "find_n ?kd (0, 0, 0) 16 \<noteq> []" by auto
  have z: "\<forall>t \<in> set (find_n ?kd (0, 0, 0) 16). pdist_of t = 0"
  proof
    fix t assume "t \<in> set (find_n ?kd (0, 0, 0) 16)"
    then obtain p i where "t = (p, i, vdist p (0, 0, 0))" "(p, i) \<in> set ?kd"
      using find_n_set by blast
    then show "pdist_of t = 0"
      by (simp add: kdtree_from_verts_set pdist_of_def vdist_def)
  qed
  have "kd_row ?kd (0, 0, 0) epsilon 16 = Inl ZeroDivisionError"
    using ne z by (rule kd_row_zero)
  then show ?thesis using g by simp
qed

text \<open>
  In every other case the rows are as the claim describes: when the largest of the
  distances is not 0, the row of a query point holds the vertices that \<^verbatim>\<open>find_n\<close>
  returns, in that order, each with the weight
  \<open>(1 - dist / maxdist) / max(dist, epsilon)\<close>, which is never negative.
\<close>

lemma update_absent: "k \<notin> fst ` set d \<Longrightarrow> AList.update k v d = d @ [(k, v)]"
  by (induction d) auto

lemma kd_dict_rows:
  assumes "maxdist \<noteq> 0" and "0 < eps" and "distinct (map pidx ps)"
    and "\<forall>t \<in> set ps. pidx t \<notin> fst ` set d"
  shows "kd_dict maxdist eps ps d
           = Inr (d @ map (\<lambda>t. (pidx t, (1 - pdist_of t / maxdist) / max (pdist_of t) eps)) ps)"
  using assms
proof (induction ps arbitrary: d)
  case Nil then show ?case by simp
next
  case (Cons t ps)
  obtain co idx pd where t: "t = (co, idx, pd)" by (cases t)
  let ?w = "(1 - pd / maxdist) / max pd eps"
  have e: "max pd eps \<noteq> 0" using Cons.prems(2) by (simp add: max_def)
  have fresh: "idx \<notin> fst ` set d" using Cons.prems(4) t by (simp add: pidx_def)
  have ds: "dict_set d idx ?w = d @ [(idx, ?w)]"
    unfolding dict_set_def by (rule update_absent[OF fresh])
  have step: "kd_dict maxdist eps (t # ps) d = kd_dict maxdist eps ps (d @ [(idx, ?w)])"
    using Cons.prems(1) e by (simp add: t ds)
  have "kd_dict maxdist eps ps (d @ [(idx, ?w)])
          = Inr ((d @ [(idx, ?w)]) @ map (\<lambda>t. (pidx t, (1 - pdist_of t / maxdist) / max (pdist_of t) eps)) ps)"
  proof (intro Cons.IH)
    show "maxdist \<noteq> 0" "0 < eps" by (rule Cons.prems)+
    show "distinct (map pidx ps)" using Cons.prems(3) by simp
    have "pidx t \<notin> pidx ` set ps" using Cons.prems(3) by simp
    then have "\<forall>u \<in> set ps. pidx u \<noteq> idx" using t by (force simp add: pidx_def)
    then show "\<forall>u \<in> set ps. pidx u \<notin> fst ` set (d @ [(idx, ?w)])"
      using Cons.prems(4) by auto
  qed
  then show ?case
    unfolding step by (simp add: t pidx_def pdist_of_def)
qed

lemma kd_row_rows:
  assumes d: "distinct (map snd kd)" and n: "0 < n" and k: "kd \<noteq> []" and eps: "0 < eps"
    and m: "Max (pdist_of ` set (find_n kd v n)) \<noteq> 0"
  shows "kd_row kd v eps n
           = Inr (map (\<lambda>t. (pidx t, (1 - pdist_of t / Max (pdist_of ` set (find_n kd v n)))
                                       / max (pdist_of t) eps))
                    (find_n kd v n))"
proof -
  let ?ds = "map (\<lambda>(co, idx, pdist). pdist) (find_n kd v n)"
  have "length (find_n kd v n) = min n (length kd)" by (rule find_n_length)
  moreover have "0 < length kd" using k by simp
  ultimately have "0 < length (find_n kd v n)" using n by simp
  then have ne: "?ds \<noteq> []" by simp
  have "(\<lambda>(co, idx, pdist). pdist) = pdist_of"
    by (auto simp add: pdist_of_def)
  then have "set ?ds = pdist_of ` set (find_n kd v n)" by simp
  then have mx: "py_max ?ds = Inr (Max (pdist_of ` set (find_n kd v n)))"
    using py_max_Max[OF ne] by simp
  show ?thesis
    unfolding kd_row_def Let_def mx
    using kd_dict_rows[OF m eps find_n_distinct[OF d, of v n], of "[]"] by simp
qed

lemma calc_weights_kd_rows:
  assumes d: "distinct (map snd kd)" and n: "0 < n" and k: "kd \<noteq> []" and eps: "0 < eps"
    and m: "\<forall>v \<in> set vs. Max (pdist_of ` set (find_n kd v n)) \<noteq> 0"
  shows "calc_weights_kd kd vs eps n
           = Inr (map (\<lambda>v. map (\<lambda>t. (pidx t, (1 - pdist_of t / Max (pdist_of ` set (find_n kd v n)))
                                                / max (pdist_of t) eps))
                               (find_n kd v n))
                    vs)"
  using m
proof (induction vs)
  case Nil then show ?case by simp
next
  case (Cons v vs)
  have "Max (pdist_of ` set (find_n kd v n)) \<noteq> 0" using Cons.prems by simp
  from kd_row_rows[OF d n k eps this] Cons show ?case by simp
qed

lemma kd_weight_nonneg:
  assumes t: "t \<in> set (find_n kd v n)" and eps: "0 < eps"
  shows "0 \<le> (1 - pdist_of t / Max (pdist_of ` set (find_n kd v n))) / max (pdist_of t) eps"
proof -
  let ?M = "Max (pdist_of ` set (find_n kd v n))"
  obtain p i where "t = (p, i, vdist p v)"
    using find_n_set[OF t] by blast
  then have d0: "0 \<le> pdist_of t"
    by (simp add: pdist_of_def vdist_nonneg)
  have dM: "pdist_of t \<le> ?M"
    using t by (intro Max_ge) simp_all
  have "pdist_of t / ?M \<le> 1"
    using d0 dM by (cases "?M = 0") (simp_all add: divide_le_eq_1)
  moreover have "0 < max (pdist_of t) eps"
    using eps by (simp add: less_max_iff_disj)
  ultimately show ?thesis by simp
qed

subsection \<open>The weights that the fitting pipeline prunes\<close>

text \<open>
  \<^verbatim>\<open>_calc_weights_internal\<close> is the caller of \<^verbatim>\<open>weights_convert\<close> with pruning. The
  weight map it hands over has no negative weight: the seed weights are not negative,
  and the two surface passes combine by \<^verbatim>\<open>max\<close>, starting from \<^verbatim>\<open>d.get(k, 0)\<close>. So the
  rows that are pruned there have a largest weight that is not negative.
\<close>

lemma set_dict_set: "set (dict_set d k v) \<subseteq> insert (k, v) (set d)"
  unfolding dict_set_def by (induction d) auto

lemma row_nonneg_dict_set: "row_nonneg d \<Longrightarrow> 0 \<le> v \<Longrightarrow> row_nonneg (dict_set d k v)"
  using set_dict_set[of d k v] unfolding row_nonneg_def by auto

lemma row_nonneg_get: "row_nonneg d \<Longrightarrow> 0 \<le> dict_get d k 0"
  unfolding row_nonneg_def by (rule dict_get_nonneg)

lemma rows_nonneg_update:
  "\<forall>d \<in> set ws. row_nonneg d \<Longrightarrow> row_nonneg d' \<Longrightarrow> \<forall>d \<in> set (ws[i := d']). row_nonneg d"
  using set_update_subset_insert[of ws i d'] by auto

lemma direct_face_loop_nonneg: "row_nonneg d \<Longrightarrow> row_nonneg (direct_face_loop f d zs)"
proof (induction zs arbitrary: d)
  case Nil then show ?case by simp
next
  case (Cons z zs)
  obtain vi bw where z: "z = (vi, bw)" by (cases z)
  have "0 \<le> max (dict_get d vi 0) (bw * f)"
    using row_nonneg_get[OF Cons.prems, of vi] by (simp add: le_max_iff_disj)
  then have "row_nonneg (dict_set d vi (max (dict_get d vi 0) (bw * f)))"
    using Cons.prems by (intro row_nonneg_dict_set)
  then show ?case unfolding z by (simp add: Cons.IH)
qed

lemma direct_loop_nonneg:
  "\<forall>d \<in> set ws. row_nonneg d \<Longrightarrow> direct_loop mu vs fs bvh ws en = Inr ws' \<Longrightarrow>
   \<forall>d \<in> set ws'. row_nonneg d"
proof (induction en arbitrary: ws)
  case Nil then show ?case by simp
next
  case (Cons x en)
  obtain i v where x: "x = (i, v)" by (cases x)
  show ?case
  proof (cases "bvh v dist_thresh")
    case None
    then show ?thesis using Cons x by simp
  next
    case (Some hit)
    obtain loc idx fdist where hit: "hit = (loc, idx, fdist)" by (cases hit)
    let ?d = "direct_face_loop ((1 - fdist / dist_thresh) / max fdist epsilon) (ws ! i)
                (zip (fs ! idx) (poly_3d_calc mu (map (\<lambda>vi. vs ! vi) (fs ! idx)) loc))"
    have i: "i < length ws"
      and rest: "direct_loop mu vs fs bvh (ws[i := ?d]) en = Inr ws'"
      using Cons.prems(2) x Some hit by (auto split: if_splits)
    have "row_nonneg (ws ! i)" using Cons.prems(1) i by simp
    then have "row_nonneg ?d" by (rule direct_face_loop_nonneg)
    then have "\<forall>d \<in> set (ws[i := ?d]). row_nonneg d"
      using Cons.prems(1) by (intro rows_nonneg_update)
    from Cons.IH[OF this rest] show ?thesis .
  qed
qed

lemma reverse_face_loop_nonneg:
  "\<forall>d \<in> set ws. row_nonneg d \<Longrightarrow> reverse_face_loop max i f ws zs = Inr ws' \<Longrightarrow>
   \<forall>d \<in> set ws'. row_nonneg d"
proof (induction zs arbitrary: ws)
  case Nil then show ?case by simp
next
  case (Cons z zs)
  obtain vi bw where z: "z = (vi, bw)" by (cases z)
  let ?d = "dict_set (ws ! vi) i (max (dict_get (ws ! vi) i 0) (bw * f))"
  have vi: "vi < length ws" and rest: "reverse_face_loop max i f (ws[vi := ?d]) zs = Inr ws'"
    using Cons.prems(2) z by (auto split: if_splits)
  have n: "row_nonneg (ws ! vi)" using Cons.prems(1) vi by simp
  have "0 \<le> max (dict_get (ws ! vi) i 0) (bw * f)"
    using row_nonneg_get[OF n, of i] by (simp add: le_max_iff_disj)
  then have "row_nonneg ?d" using n by (intro row_nonneg_dict_set)
  then have "\<forall>d \<in> set (ws[vi := ?d]). row_nonneg d"
    using Cons.prems(1) by (intro rows_nonneg_update)
  from Cons.IH[OF this rest] show ?case .
qed

lemma reverse_loop_nonneg:
  "\<forall>d \<in> set ws. row_nonneg d \<Longrightarrow> reverse_loop mu max vs fs bvh ws en = Inr ws' \<Longrightarrow>
   \<forall>d \<in> set ws'. row_nonneg d"
proof (induction en arbitrary: ws)
  case Nil then show ?case by simp
next
  case (Cons x en)
  obtain i cvert where x: "x = (i, cvert)" by (cases x)
  show ?case
  proof (cases "bvh cvert dist_thresh")
    case None
    then show ?thesis using Cons x by simp
  next
    case (Some hit)
    obtain loc idx fdist where hit: "hit = (loc, idx, fdist)" by (cases hit)
    obtain ws1 where
      f: "reverse_face_loop max i ((1 - fdist / dist_thresh) / max fdist (1 / 10 ^ 15)) ws
            (zip (fs ! idx) (poly_3d_calc mu (map (\<lambda>j. vs ! j) (fs ! idx)) loc)) = Inr ws1"
      and rest: "reverse_loop mu max vs fs bvh ws1 en = Inr ws'"
      using Cons.prems(2) x Some hit by (auto split: if_splits sum.splits)
    from reverse_face_loop_nonneg[OF Cons.prems(1) f]
    have "\<forall>d \<in> set ws1. row_nonneg d" .
    from Cons.IH[OF this rest] show ?thesis .
  qed
qed

lemma kd_dict_nonneg:
  assumes "kd_dict maxdist eps ps d = Inr d'" and "row_nonneg d" and "0 < eps"
    and "\<forall>t \<in> set ps. 0 \<le> pdist_of t \<and> pdist_of t \<le> maxdist"
  shows "row_nonneg d'"
  using assms
proof (induction ps arbitrary: d)
  case Nil then show ?case by simp
next
  case (Cons t ps)
  obtain co idx pd where t: "t = (co, idx, pd)" by (cases t)
  let ?w = "(1 - pd / maxdist) / max pd eps"
  have m: "maxdist \<noteq> 0" and rest: "kd_dict maxdist eps ps (dict_set d idx ?w) = Inr d'"
    using Cons.prems(1) t by (auto split: if_splits)
  have pd: "0 \<le> pd" "pd \<le> maxdist"
    using Cons.prems(4) t by (simp_all add: pdist_of_def)
  have "pd / maxdist \<le> 1" using pd m by (simp add: divide_le_eq_1)
  moreover have "0 < max pd eps" using Cons.prems(3) by (simp add: less_max_iff_disj)
  ultimately have "0 \<le> ?w" by simp
  then have "row_nonneg (dict_set d idx ?w)"
    using Cons.prems(2) by (intro row_nonneg_dict_set)
  from Cons.IH[OF rest this Cons.prems(3)] Cons.prems(4) show ?case by simp
qed

lemma kd_row_nonneg:
  assumes r: "kd_row kd v eps n = Inr d" and eps: "0 < eps"
  shows "row_nonneg d"
proof -
  let ?ps = "find_n kd v n"
  let ?ds = "map (\<lambda>(co, idx, pdist). pdist) ?ps"
  have ne: "?ds \<noteq> []"
    using r by (auto simp add: kd_row_def Let_def py_max_def split: list.splits)
  have key: "(\<lambda>(co, idx, pdist). pdist) = pdist_of"
    by (auto simp add: pdist_of_def)
  have mx: "py_max ?ds = Inr (Max (pdist_of ` set ?ps))"
    using py_max_Max[OF ne] by (simp add: key)
  have run: "kd_dict (Max (pdist_of ` set ?ps)) eps ?ps [] = Inr d"
    using r unfolding kd_row_def Let_def mx by simp
  have b: "\<forall>t \<in> set ?ps. 0 \<le> pdist_of t \<and> pdist_of t \<le> Max (pdist_of ` set ?ps)"
  proof
    fix t assume t: "t \<in> set ?ps"
    obtain p i where "t = (p, i, vdist p v)" using find_n_set[OF t] by blast
    then have "0 \<le> pdist_of t" by (simp add: pdist_of_def vdist_nonneg)
    moreover have "pdist_of t \<le> Max (pdist_of ` set ?ps)"
      using t by (intro Max_ge) simp_all
    ultimately show "0 \<le> pdist_of t \<and> pdist_of t \<le> Max (pdist_of ` set ?ps)" by simp
  qed
  show ?thesis
    by (rule kd_dict_nonneg[OF run _ eps b]) (simp add: row_nonneg_def)
qed

lemma calc_weights_kd_nonneg:
  "calc_weights_kd kd vs eps n = Inr ws \<Longrightarrow> 0 < eps \<Longrightarrow> \<forall>d \<in> set ws. row_nonneg d"
proof (induction vs arbitrary: ws)
  case Nil then show ?case by simp
next
  case (Cons v vs)
  then show ?case
    by (auto split: sum.splits dest: kd_row_nonneg)
qed

lemma calc_weights_direct_nonneg:
  assumes "calc_weights_direct mu ws cg asset_verts = Inr ws'" and "\<forall>d \<in> set ws. row_nonneg d"
  shows "\<forall>d \<in> set ws'. row_nonneg d"
proof -
  obtain bvh where
    "direct_loop mu (verts cg) (faces cg) bvh ws (enumerate 0 asset_verts) = Inr ws'"
    using assms(1) by (auto simp add: calc_weights_direct_def split: sum.splits)
  from direct_loop_nonneg[OF assms(2) this] show ?thesis .
qed

lemma calc_weights_reverse_nonneg:
  assumes "calc_weights_reverse mu ws char_geom asset_geom max = Inr ws'"
    and "\<forall>d \<in> set ws. row_nonneg d"
  shows "\<forall>d \<in> set ws'. row_nonneg d"
proof -
  obtain bvh en where
    "reverse_loop mu max (verts asset_geom) (faces asset_geom) bvh ws en = Inr ws'"
    using assms(1) by (auto simp add: calc_weights_reverse_def split: sum.splits)
  from reverse_loop_nonneg[OF assms(2) this] show ?thesis .
qed

lemma calc_weights_internal_nonneg:
  assumes "calc_weights_internal mu self asset_verts afd = Inr (W, self')"
  shows "\<exists>weights. (\<forall>d \<in> set weights. row_nonneg d) \<and> finalize weights = Inr W"
proof -
  obtain kd w0 w1 w2 where
    k: "calc_weights_kd kd asset_verts epsilon 16 = Inr w0"
    and d: "calc_weights_direct mu w0 (geom self) asset_verts = Inr w1"
    and r: "w2 = w1 \<or> (\<exists>g. calc_weights_reverse mu w1 (GeometryObj (geom self)) g max = Inr w2)"
    and f: "finalize w2 = Inr W"
    using assms
    by (auto simp add: calc_weights_internal_def Let_def split: sum.splits option.splits prod.splits;
        blast)
  have n0: "\<forall>d \<in> set w0. row_nonneg d"
    using calc_weights_kd_nonneg[OF k] by (simp add: epsilon_def)
  have n1: "\<forall>d \<in> set w1. row_nonneg d"
    by (rule calc_weights_direct_nonneg[OF d n0])
  have n2: "\<forall>d \<in> set w2. row_nonneg d"
    using r
  proof
    assume "w2 = w1" then show ?thesis using n1 by simp
  next
    assume "\<exists>g. calc_weights_reverse mu w1 (GeometryObj (geom self)) g max = Inr w2"
    then obtain g where "calc_weights_reverse mu w1 (GeometryObj (geom self)) g max = Inr w2"
      by blast
    from calc_weights_reverse_nonneg[OF this n1] show ?thesis .
  qed
  show ?thesis using n2 f by blast
qed

lemma row_nonneg_Max: "d \<noteq> [] \<Longrightarrow> row_nonneg d \<Longrightarrow> 0 \<le> Max (snd ` set d)"
proof -
  assume ne: "d \<noteq> []" and n: "row_nonneg d"
  have "Max (snd ` set d) \<in> snd ` set d"
    using ne by (intro Max_in) simp_all
  then show ?thesis
    using n unfolding row_nonneg_def by auto
qed

end
